theory Spec2Isabelle
  imports Complex_Main
begin

section \<open>Data model\<close>

text \<open>
  The repository pairs one peer that wants to send a file with one that wants to receive
  it. The socket handlers keep two waiting pools (\<open>toSend\<close>, \<open>toReceive\<close>) and the
  dictionary \<open>paired\<close>; the model module exports \<open>UserData\<close>, \<open>Users\<close>,
  \<open>Connection\<close> and \<open>Pairs\<close>. Identities and connection identifiers are JavaScript
  numbers used as property keys; they are modelled as \<open>nat\<close>. A \<open>null\<close> or
  \<open>undefined\<close> value is \<open>None\<close>.
\<close>

text \<open>The socket.io socket: an opaque handle together with the handshake address that
  \<open>parseAddress\<close> and \<open>parsePort\<close> read.\<close>

record Socket =
  handle :: nat
  handshake_address :: string
  handshake_port :: nat

record Geo =
  latitude :: real
  longitude :: real
  accuracy :: real

record FileInfo =
  name :: string
  fsize :: nat

text \<open>\<open>UserData\<close>: the field \<open>id\<close> is \<open>user_id\<close> here. The constructor sets every
  field to \<open>null\<close>; both handlers assign \<open>id\<close>, \<open>socket\<close>, \<open>ip\<close> and \<open>port\<close>
  right after it, so \<open>user_id\<close> and \<open>socket\<close> are not optional.\<close>

record UserData =
  user_id :: nat
  socket :: Socket
  ip :: "string option"
  port :: "nat option"
  geoLongitude :: "real option"
  geoLatitude :: "real option"
  geoAccuracy :: "real option"
  fileName :: "string option"
  fileSize :: "nat option"

text \<open>\<open>Connection\<close> as the handlers declare it; the model module's \<open>Connection\<close> has
  the additional field \<open>id\<close> (\<open>con_id\<close>). The status is the string the source stores.\<close>

record Connection =
  sender :: UserData
  senderConfirmed :: bool
  receiver :: UserData
  receiverConfirmed :: bool
  status :: string

record ConnectionM = Connection +
  con_id :: nat

datatype js_error = TypeError

text \<open>JavaScript truthiness of an optional number: \<open>undefined\<close> and \<open>0\<close> are falsy.\<close>

definition truthy :: "nat option \<Rightarrow> bool" where
  "truthy x = (case x of None \<Rightarrow> False | Some n \<Rightarrow> n \<noteq> 0)"

section \<open>JavaScript objects with numeric keys\<close>

text \<open>A waiting pool's \<open>_store\<close> is a plain object that the code also enumerates
  (\<open>for ... in\<close>, \<open>Object.keys\<close>). It is an association list in enumeration order;
  integer keys are enumerated in ascending order, so an assignment puts a new key at its
  sorted position and overwrites an existing key in place.\<close>

type_synonym 'v obj = "(nat \<times> 'v) list"

fun obj_set :: "nat \<Rightarrow> 'v \<Rightarrow> 'v obj \<Rightarrow> 'v obj" where
  "obj_set k v [] = [(k, v)]"
| "obj_set k v ((k', v') # xs) =
     (if k = k' then (k, v) # xs
      else if k < k' then (k, v) # (k', v') # xs
      else (k', v') # obj_set k v xs)"

definition obj_delete :: "nat \<Rightarrow> 'v obj \<Rightarrow> 'v obj" where
  "obj_delete k xs = filter (\<lambda>kv. fst kv \<noteq> k) xs"

definition obj_in :: "nat \<Rightarrow> 'v obj \<Rightarrow> bool" where
  "obj_in k xs \<longleftrightarrow> map_of xs k \<noteq> None"

section \<open>Notifications\<close>

text \<open>The events the server emits, with their payloads. \<open>Emit u m\<close> is
  \<open>u.socket.emit(m)\<close>: the emission through the socket of the peer object \<open>u\<close>;
  \<open>EmitSocket\<close> is an emission on a socket that belongs to no peer object yet.\<close>

datatype msg =
    SetID nat
  | ConfirmSend nat "string option" "nat option"
  | ConfirmReceive nat "string option" "nat option"
  | ReceiveFile nat "string option" "nat option"
  | SendFile nat "string option" "nat option"
  | PairFailed
  | StartSending nat nat
  | BetrayedSending nat
  | BetrayedReceiving nat

datatype emission = Emit UserData msg | EmitSocket Socket msg

section \<open>Waiting pools: Users\<close>

definition TIMEOUT :: nat where
  "TIMEOUT = 1500"

record Users =
  store :: "UserData obj"

definition Users_new :: Users where
  "Users_new = \<lparr>store = []\<rparr>"

definition Users_clear :: "nat \<Rightarrow> Users \<Rightarrow> Users" where
  "Users_clear userID U = U\<lparr>store := obj_delete userID (store U)\<rparr>"

text \<open>A pending \<open>setTimeout\<close> closure of \<open>addTillExpire\<close>: when it is due, the
  identity and the callback it captured. The store it captured is the pool's own.\<close>

record Timer =
  due :: nat
  theID :: nat
  on_expire :: "UserData \<Rightarrow> emission list"

text \<open>\<open>addTillExpire(user, callback)\<close> at time \<open>now\<close>: the updated pool and the timer
  handed to the event loop. No earlier timer is touched.\<close>

definition Users_addTillExpire ::
  "UserData \<Rightarrow> (UserData \<Rightarrow> emission list) \<Rightarrow> nat \<Rightarrow> Users \<Rightarrow> Users \<times> Timer" where
  "Users_addTillExpire user cb now U =
     (U\<lparr>store := obj_set (user_id user) user (store U)\<rparr>,
      \<lparr>due = now + TIMEOUT, theID = user_id user, on_expire = cb\<rparr>)"

text \<open>The body of the timer closure: what it emits and the pool it leaves.\<close>

definition Users_expire :: "Timer \<Rightarrow> Users \<Rightarrow> emission list \<times> Users" where
  "Users_expire tm U =
     (if obj_in (theID tm) (store U)
      then (case map_of (store U) (theID tm) of
              None \<Rightarrow> ([], U)
            | Some u \<Rightarrow> (on_expire tm u, U\<lparr>store := obj_delete (theID tm) (store U)\<rparr>))
      else ([], U))"

text \<open>\<open>pickUpon(baseUser)\<close>: the value under the first enumerated key, \<open>undefined\<close>
  for an empty store. The pool is returned as the call leaves it.\<close>

definition Users_pickUpon :: "UserData \<Rightarrow> Users \<Rightarrow> UserData option \<times> Users" where
  "Users_pickUpon baseUser U =
     (case store U of
        [] \<Rightarrow> (None, U)
      | (uid, u) # rest \<Rightarrow> (map_of (store U) uid, U))"

definition Users_userIDs :: "Users \<Rightarrow> nat list" where
  "Users_userIDs U = map fst (store U)"

section \<open>The handlers' dictionary of connections: paired\<close>

text \<open>\<open>paired._connections\<close> maps the sender's id and the receiver's id to the same
  \<open>Connection\<close> object, which \<open>confirm\<close> mutates. The objects live in \<open>objs\<close>; an
  entry of \<open>conns\<close> is the position of the object it refers to; \<open>new Connection()\<close>
  appends. \<open>con_at\<close> is the object a key refers to; a JavaScript reference cannot
  dangle, so a key is present exactly when \<open>con_at\<close> finds its object.\<close>

record Paired =
  conns :: "nat \<rightharpoonup> nat"
  objs :: "Connection list"

definition paired_init :: Paired where
  "paired_init = \<lparr>conns = Map.empty, objs = []\<rparr>"

definition con_at :: "Paired \<Rightarrow> nat \<Rightarrow> Connection option" where
  "con_at P userID =
     (case conns P userID of
        None \<Rightarrow> None
      | Some a \<Rightarrow> if a < length (objs P) then Some (objs P ! a) else None)"

definition paired_clear :: "nat \<Rightarrow> Paired \<Rightarrow> emission list \<times> Paired" where
  "paired_clear userID P =
     (case con_at P userID of
        None \<Rightarrow> ([], P)
      | Some con \<Rightarrow>
          ([if userID = user_id (sender con)
            then Emit (receiver con) (BetrayedSending (user_id (sender con)))
            else Emit (sender con) (BetrayedReceiving (user_id (receiver con)))],
           P\<lparr>conns := ((conns P)(user_id (sender con) := None))
                         (user_id (receiver con) := None)\<rparr>))"

definition paired_add :: "UserData \<Rightarrow> UserData \<Rightarrow> Paired \<Rightarrow> emission list \<times> Paired" where
  "paired_add sndr rcvr P =
     (case paired_clear (user_id sndr) P of
        (es1, P1) \<Rightarrow>
          (case paired_clear (user_id rcvr) P1 of
             (es2, P2) \<Rightarrow>
               (let con = \<lparr>sender = sndr, senderConfirmed = False,
                           receiver = rcvr, receiverConfirmed = False,
                           status = ''INIT''\<rparr>;
                    a = length (objs P2)
                in (es1 @ es2,
                    P2\<lparr>objs := objs P2 @ [con],
                       conns := ((conns P2)(user_id sndr \<mapsto> a))(user_id rcvr \<mapsto> a)\<rparr>))))"

definition paired_confirm :: "nat \<Rightarrow> nat \<Rightarrow> Paired \<Rightarrow> emission list \<times> Paired" where
  "paired_confirm myID partnerID P =
     (if con_at P myID = None \<or> con_at P partnerID = None then ([], P)
      else
        (case conns P myID of
           None \<Rightarrow> ([], P)
         | Some a \<Rightarrow>
             (let con = objs P ! a;
                  con1 = (if user_id (sender con) = myID
                          then con\<lparr>senderConfirmed := True\<rparr>
                          else con\<lparr>receiverConfirmed := True\<rparr>)
              in if senderConfirmed con1 \<and> receiverConfirmed con1
                 then ([Emit (sender con)
                          (StartSending (user_id (sender con)) (user_id (receiver con))),
                        Emit (receiver con)
                          (StartSending (user_id (sender con)) (user_id (receiver con)))],
                       P\<lparr>objs := (objs P)[a := con1\<lparr>status := ''SENDING''\<rparr>]\<rparr>)
                 else ([], P\<lparr>objs := (objs P)[a := con1]\<rparr>))))"

section \<open>The socket handlers\<close>

text \<open>The module state of the handlers' file, the pending timers of the event loop
  (each with the pool whose store its closure captured), the time in milliseconds and
  the emissions so far.\<close>

datatype role = ToSend | ToReceive

record Server =
  socketID :: nat
  toSend :: Users
  toReceive :: Users
  paired :: Paired
  timers :: "(role \<times> Timer) list"
  clock :: nat
  out :: "emission list"

definition Server_init :: Server where
  "Server_init =
     \<lparr>socketID = 0, toSend = Users_new, toReceive = Users_new, paired = paired_init,
      timers = [], clock = 0, out = []\<rparr>"

definition pool :: "role \<Rightarrow> Server \<Rightarrow> Users" where
  "pool r st = (case r of ToSend \<Rightarrow> toSend st | ToReceive \<Rightarrow> toReceive st)"

definition set_pool :: "role \<Rightarrow> Users \<Rightarrow> Server \<Rightarrow> Server" where
  "set_pool r U st = (case r of ToSend \<Rightarrow> st\<lparr>toSend := U\<rparr> | ToReceive \<Rightarrow> st\<lparr>toReceive := U\<rparr>)"

definition parseAddress :: "Socket \<Rightarrow> string" where
  "parseAddress s = handshake_address s"

definition parsePort :: "Socket \<Rightarrow> nat" where
  "parsePort s = handshake_port s"

text \<open>The callback both handlers pass to \<open>addTillExpire\<close>.\<close>

definition pairFailed :: "UserData \<Rightarrow> emission list" where
  "pairFailed u = [Emit u PairFailed]"

text \<open>The \<open>UserData\<close> object each handler builds from its request: the geolocation
  fields are set only when \<open>geo\<close> is given, the file fields only for a sender (whose
  request must carry \<open>fileInfo\<close>: the handler reads its \<open>name\<close> and \<open>size\<close>).\<close>

definition receiving_user :: "Socket \<Rightarrow> nat \<Rightarrow> Geo option \<Rightarrow> UserData" where
  "receiving_user s receiveID geo =
     \<lparr>user_id = receiveID, socket = s,
      ip = Some (parseAddress s), port = Some (parsePort s),
      geoLongitude = map_option longitude geo,
      geoLatitude = map_option latitude geo,
      geoAccuracy = map_option accuracy geo,
      fileName = None, fileSize = None\<rparr>"

definition sending_user :: "Socket \<Rightarrow> nat \<Rightarrow> Geo option \<Rightarrow> FileInfo \<Rightarrow> UserData" where
  "sending_user s sendID geo fileInfo =
     \<lparr>user_id = sendID, socket = s,
      ip = Some (parseAddress s), port = Some (parsePort s),
      geoLongitude = map_option longitude geo,
      geoLatitude = map_option latitude geo,
      geoAccuracy = map_option accuracy geo,
      fileName = Some (name fileInfo), fileSize = Some (fsize fileInfo)\<rparr>"

definition onPairToReceive :: "Socket \<Rightarrow> nat \<Rightarrow> Geo option \<Rightarrow> Server \<Rightarrow> Server" where
  "onPairToReceive s receiveID geo st =
     (let snd0 = Users_clear receiveID (toSend st);
          rcv0 = Users_clear receiveID (toReceive st);
          user = receiving_user s receiveID geo
      in case Users_pickUpon user snd0 of
           (Some partner, snd1) \<Rightarrow>
             (case paired_add partner user (paired st) of
                (es, P) \<Rightarrow>
                  st\<lparr>toSend := Users_clear (user_id partner) snd1,
                     toReceive := rcv0,
                     paired := P,
                     out := out st @
                       [Emit partner (ConfirmSend (user_id user) (fileName partner) (fileSize partner)),
                        Emit user (ConfirmReceive (user_id partner) (fileName partner) (fileSize partner))]
                       @ es\<rparr>)
         | (None, snd1) \<Rightarrow>
             (case Users_addTillExpire user pairFailed (clock st) rcv0 of
                (rcv1, tm) \<Rightarrow>
                  st\<lparr>toSend := snd1, toReceive := rcv1,
                     timers := timers st @ [(ToReceive, tm)]\<rparr>))"

definition onPairToSend :: "Socket \<Rightarrow> nat \<Rightarrow> Geo option \<Rightarrow> FileInfo \<Rightarrow> Server \<Rightarrow> Server" where
  "onPairToSend s sendID geo fileInfo st =
     (let snd0 = Users_clear sendID (toSend st);
          rcv0 = Users_clear sendID (toReceive st);
          user = sending_user s sendID geo fileInfo
      in case Users_pickUpon user rcv0 of
           (Some partner, rcv1) \<Rightarrow>
             (case paired_add user partner (paired st) of
                (es, P) \<Rightarrow>
                  st\<lparr>toSend := snd0,
                     toReceive := Users_clear (user_id partner) rcv1,
                     paired := P,
                     out := out st @
                       [Emit partner (ReceiveFile (user_id user) (fileName user) (fileSize user)),
                        Emit user (SendFile (user_id partner) (fileName user) (fileSize user))]
                       @ es\<rparr>)
         | (None, rcv1) \<Rightarrow>
             (case Users_addTillExpire user pairFailed (clock st) snd0 of
                (snd1, tm) \<Rightarrow>
                  st\<lparr>toSend := snd1, toReceive := rcv1,
                     timers := timers st @ [(ToSend, tm)]\<rparr>))"

text \<open>\<open>initSocket\<close> assigns the next socket id and announces it; the listeners it
  installs are the events below.\<close>

definition initSocket :: "Socket \<Rightarrow> Server \<Rightarrow> Server" where
  "initSocket s st =
     st\<lparr>socketID := socketID st + 1,
        out := out st @ [EmitSocket s (SetID (socketID st + 1))]\<rparr>"

definition onDisconnect :: "nat \<Rightarrow> Server \<Rightarrow> Server" where
  "onDisconnect assignedID st =
     st\<lparr>toSend := Users_clear assignedID (toSend st),
        toReceive := Users_clear assignedID (toReceive st)\<rparr>"

definition onConfirmFailed :: "nat \<Rightarrow> Server \<Rightarrow> Server" where
  "onConfirmFailed myID st =
     (case paired_clear myID (paired st) of
        (es, P) \<Rightarrow> st\<lparr>paired := P, out := out st @ es\<rparr>)"

definition onConfirm :: "nat \<Rightarrow> nat \<Rightarrow> Server \<Rightarrow> Server" where
  "onConfirm myID partnerID st =
     (case paired_confirm myID partnerID (paired st) of
        (es, P) \<Rightarrow> st\<lparr>paired := P, out := out st @ es\<rparr>)"

text \<open>One timer closure runs against the pool it captured.\<close>

definition fire :: "role \<times> Timer \<Rightarrow> Server \<Rightarrow> Server" where
  "fire rt st =
     (case Users_expire (snd rt) (pool (fst rt) st) of
        (es, U) \<Rightarrow> (set_pool (fst rt) U st)\<lparr>out := out st @ es\<rparr>)"

text \<open>\<open>d\<close> milliseconds pass with no inbound event: the timers that have become due
  run, in the order in which they were scheduled (all have the same delay, so this is
  the order in which they are due).\<close>

definition tick :: "nat \<Rightarrow> Server \<Rightarrow> Server" where
  "tick d st =
     (let t = clock st + d;
          ready = filter (\<lambda>rt. due (snd rt) \<le> t) (timers st);
          later = filter (\<lambda>rt. \<not> due (snd rt) \<le> t) (timers st)
      in (foldl (\<lambda>s rt. fire rt s) (st\<lparr>timers := later\<rparr>) ready)\<lparr>clock := t\<rparr>)"

datatype event =
    Connect Socket
  | Disconnect nat
  | PairToReceive Socket nat "Geo option"
  | PairToSend Socket nat "Geo option" FileInfo
  | ConfirmFailed nat
  | ConfirmPair nat nat
  | Elapse nat

fun handle_event :: "event \<Rightarrow> Server \<Rightarrow> Server" where
  "handle_event (Connect s) st = initSocket s st"
| "handle_event (Disconnect assignedID) st = onDisconnect assignedID st"
| "handle_event (PairToReceive s i geo) st = onPairToReceive s i geo st"
| "handle_event (PairToSend s i geo fileInfo) st = onPairToSend s i geo fileInfo st"
| "handle_event (ConfirmFailed myID) st = onConfirmFailed myID st"
| "handle_event (ConfirmPair myID partnerID) st = onConfirm myID partnerID st"
| "handle_event (Elapse d) st = tick d st"

definition run_from :: "Server \<Rightarrow> event list \<Rightarrow> Server" where
  "run_from st evs = foldl (\<lambda>s ev. handle_event ev s) st evs"

definition run :: "event list \<Rightarrow> Server" where
  "run evs = run_from Server_init evs"

section \<open>The model module: Pairs\<close>

text \<open>The closure variable \<open>connectionID\<close>, the primary store \<open>_connections\<close>
  (connection id to connection) and the secondary index \<open>_indices\<close> (participant id to
  connection id).\<close>

record Pairs =
  connectionID :: nat
  connections :: "nat \<rightharpoonup> ConnectionM"
  indices :: "nat \<rightharpoonup> nat"

definition Pairs_init :: Pairs where
  "Pairs_init = \<lparr>connectionID = 0, connections = Map.empty, indices = Map.empty\<rparr>"

definition nextID :: "Pairs \<Rightarrow> nat \<times> Pairs" where
  "nextID st = (connectionID st + 1, st\<lparr>connectionID := connectionID st + 1\<rparr>)"

definition Pairs_get :: "nat \<Rightarrow> Pairs \<Rightarrow> ConnectionM option" where
  "Pairs_get conID st = connections st conID"

text \<open>\<open>Pairs.clear(conID, fromUserID, callback)\<close>. The callback is opaque: the model
  returns the values of its invocations, in order. Calling an absent callback is the
  \<open>TypeError\<close> JavaScript throws; it is thrown before anything is deleted.\<close>

definition Pairs_clear ::
  "nat \<Rightarrow> nat option \<Rightarrow> (UserData \<Rightarrow> 'e) option \<Rightarrow> Pairs \<Rightarrow> js_error + ('e list \<times> Pairs)" where
  "Pairs_clear conID fromUserID callback st =
     (case connections st conID of
        None \<Rightarrow> Inr ([], st)
      | Some con \<Rightarrow>
          (case (if truthy fromUserID
                 then (case callback of
                         None \<Rightarrow> Inl TypeError
                       | Some cb \<Rightarrow>
                           if fromUserID = Some (user_id (sender con))
                           then Inr [cb (receiver con)]
                           else Inr [cb (sender con)])
                 else Inr []) of
             Inl e \<Rightarrow> Inl e
           | Inr called \<Rightarrow>
               Inr (called,
                    st\<lparr>connections := (connections st)(conID := None),
                       indices := ((indices st)(user_id (sender con) := None))
                                    (user_id (receiver con) := None)\<rparr>)))"

definition Pairs_add :: "UserData \<Rightarrow> UserData \<Rightarrow> Pairs \<Rightarrow> nat \<times> Pairs" where
  "Pairs_add sndr rcvr st =
     (case nextID st of
        (conID, st1) \<Rightarrow>
          (let con = \<lparr>sender = sndr, senderConfirmed = False,
                      receiver = rcvr, receiverConfirmed = False,
                      status = ''INIT'', con_id = conID\<rparr>;
               idx = ((indices st1)(user_id sndr := None))(user_id rcvr := None)
           in (conID,
               st1\<lparr>connections := (connections st1)(conID \<mapsto> con),
                   indices := (idx(user_id sndr \<mapsto> conID))(user_id rcvr \<mapsto> conID)\<rparr>)))"

definition Pairs_confirm :: "nat \<Rightarrow> nat \<Rightarrow> Pairs \<Rightarrow> bool \<times> Pairs" where
  "Pairs_confirm conID userID st =
     (case connections st conID of
        None \<Rightarrow> (False, st)
      | Some con \<Rightarrow>
          (let con' = (if user_id (sender con) = userID
                       then con\<lparr>senderConfirmed := True\<rparr>
                       else con\<lparr>receiverConfirmed := True\<rparr>)
           in (senderConfirmed con' \<and> receiverConfirmed con',
               st\<lparr>connections := (connections st)(conID \<mapsto> con')\<rparr>)))"

text \<open>Sequences of registry operations. An operation that throws leaves the registry as
  it was.\<close>

datatype 'e Pairs_op =
    Add UserData UserData
  | Confirm nat nat
  | Clear nat "nat option" "(UserData \<Rightarrow> 'e) option"

fun Pairs_exec :: "'e Pairs_op \<Rightarrow> Pairs \<Rightarrow> Pairs" where
  "Pairs_exec (Add s r) st = snd (Pairs_add s r st)"
| "Pairs_exec (Confirm c u) st = snd (Pairs_confirm c u st)"
| "Pairs_exec (Clear c f cb) st =
     (case Pairs_clear c f cb st of Inl e \<Rightarrow> st | Inr (called, st') \<Rightarrow> st')"

definition Pairs_run :: "'e Pairs_op list \<Rightarrow> Pairs" where
  "Pairs_run ops = foldl (\<lambda>st op. Pairs_exec op st) Pairs_init ops"

text \<open>The index is consistent with the primary store: every stored connection has both
  participants indexed to it, and every index entry names a stored connection that has
  the identity as a participant.\<close>

definition index_covers :: "Pairs \<Rightarrow> bool" where
  "index_covers st \<longleftrightarrow>
     (\<forall>c con. connections st c = Some con \<longrightarrow>
        indices st (user_id (sender con)) = Some c \<and>
        indices st (user_id (receiver con)) = Some c)"

definition index_sound :: "Pairs \<Rightarrow> bool" where
  "index_sound st \<longleftrightarrow>
     (\<forall>u c. indices st u = Some c \<longrightarrow>
        (\<exists>con. connections st c = Some con \<and>
           (u = user_id (sender con) \<or> u = user_id (receiver con))))"

definition index_consistent :: "Pairs \<Rightarrow> bool" where
  "index_consistent st \<longleftrightarrow> index_covers st \<and> index_sound st"

section \<open>Invariants of the handlers\<close>

text \<open>What holds of the handlers' state whatever events arrive: a waiting entry is stored
  under its own id, every pending timer carries the \<open>pairFailed\<close> callback, and every
  key of \<open>paired\<close> refers to an existing connection between two different ids, of which
  the key is one and which both ids refer to.\<close>

definition store_wf :: "UserData obj \<Rightarrow> bool" where
  "store_wf xs \<longleftrightarrow> list_all (\<lambda>kv. user_id (snd kv) = fst kv) xs"

definition pools_wf :: "Server \<Rightarrow> bool" where
  "pools_wf st \<longleftrightarrow> store_wf (store (toSend st)) \<and> store_wf (store (toReceive st))"

definition timers_wf :: "Server \<Rightarrow> bool" where
  "timers_wf st \<longleftrightarrow> list_all (\<lambda>rt. on_expire (snd rt) = pairFailed) (timers st)"

definition paired_wf :: "Paired \<Rightarrow> bool" where
  "paired_wf P \<longleftrightarrow>
     (\<forall>k a. conns P k = Some a \<longrightarrow>
        a < length (objs P) \<and>
        user_id (sender (objs P ! a)) \<noteq> user_id (receiver (objs P ! a)) \<and>
        (k = user_id (sender (objs P ! a)) \<or> k = user_id (receiver (objs P ! a))) \<and>
        conns P (user_id (sender (objs P ! a))) = Some a \<and>
        conns P (user_id (receiver (objs P ! a))) = Some a)"

definition server_inv :: "Server \<Rightarrow> bool" where
  "server_inv st \<longleftrightarrow> pools_wf st \<and> timers_wf st \<and> paired_wf (paired st)"

text \<open>The timer queue is in the order in which the timers are due, and each pending
  timer is due within the next \<open>TIMEOUT\<close> milliseconds.\<close>

definition timers_ordered :: "Server \<Rightarrow> bool" where
  "timers_ordered st \<longleftrightarrow>
     sorted (map (\<lambda>rt. due (snd rt)) (timers st)) \<and>
     list_all (\<lambda>rt. clock st < due (snd rt) \<and> due (snd rt) \<le> clock st + TIMEOUT) (timers st)"

text \<open>Connection ids in use are never ahead of the counter.\<close>

definition ids_fresh :: "Pairs \<Rightarrow> bool" where
  "ids_fresh st \<longleftrightarrow> (\<forall>c con. connections st c = Some con \<longrightarrow> c \<le> connectionID st)"

section \<open>Observing a waiting peer\<close>

text \<open>The opposite pool, and the entry waiting in a pool under an identity.\<close>

definition other :: "role \<Rightarrow> role" where
  "other r = (case r of ToSend \<Rightarrow> ToReceive | ToReceive \<Rightarrow> ToSend)"

definition waiting :: "role \<Rightarrow> nat \<Rightarrow> Server \<Rightarrow> UserData option" where
  "waiting r i st = map_of (store (pool r st)) i"

text \<open>The emissions of \<open>st'\<close> that came after those of \<open>st\<close>, and among a list of
  emissions the \<open>pairFailed\<close> notifications to a peer with identity \<open>i\<close>.\<close>

definition emitted_since :: "Server \<Rightarrow> Server \<Rightarrow> emission list" where
  "emitted_since st st' = drop (length (out st)) (out st')"

definition pairFailed_for :: "nat \<Rightarrow> emission list \<Rightarrow> emission list" where
  "pairFailed_for i es =
     filter (\<lambda>e. case e of Emit u m \<Rightarrow> user_id u = i \<and> m = PairFailed
                         | EmitSocket s m \<Rightarrow> False) es"

text \<open>The key under which \<open>pickUpon\<close> finds its entry: the first one the store
  enumerates.\<close>

definition first_key :: "'v obj \<Rightarrow> nat option" where
  "first_key xs = (case xs of [] \<Rightarrow> None | (k, v) # rest \<Rightarrow> Some k)"

text \<open>An event, handled in state \<open>st\<close>, passes the peer waiting under identity \<open>i\<close> by:
  it is neither a disconnect nor a pairing request of identity \<open>i\<close> (both begin by
  clearing \<open>i\<close> from the pools), and if it is a pairing request, the entry it picks as
  partner is not the one under \<open>i\<close>. A list of events leaves the peer undisturbed when
  each event passes it by in the state in which it is handled. \<open>elapsed\<close> is the time
  that passes during a list of events.\<close>

fun passes_by :: "nat \<Rightarrow> Server \<Rightarrow> event \<Rightarrow> bool" where
  "passes_by i st (Connect s) = True"
| "passes_by i st (Disconnect j) = (j \<noteq> i)"
| "passes_by i st (PairToReceive s j geo) =
     (j \<noteq> i \<and> first_key (obj_delete j (store (toSend st))) \<noteq> Some i)"
| "passes_by i st (PairToSend s j geo fileInfo) =
     (j \<noteq> i \<and> first_key (obj_delete j (store (toReceive st))) \<noteq> Some i)"
| "passes_by i st (ConfirmFailed myID) = True"
| "passes_by i st (ConfirmPair myID partnerID) = True"
| "passes_by i st (Elapse d) = True"

fun undisturbed :: "nat \<Rightarrow> Server \<Rightarrow> event list \<Rightarrow> bool" where
  "undisturbed i st [] = True"
| "undisturbed i st (ev # evs) =
     (passes_by i st ev \<and> undisturbed i (handle_event ev st) evs)"

fun elapsed :: "event list \<Rightarrow> nat" where
  "elapsed [] = 0"
| "elapsed (Elapse d # evs) = d + elapsed evs"
| "elapsed (ev # evs) = elapsed evs"

text \<open>The two phases of a waiting entry \<open>P\<close>, relative to the state \<open>st1\<close> in which it
  was inserted: still in its pool, with a timer for its pool and identity pending (due
  at \<open>D\<close>) and no \<open>pairFailed\<close> for the identity emitted since; or gone from both
  pools, with exactly one \<open>pairFailed\<close> for the identity emitted since, to \<open>P\<close>.\<close>

definition still_waiting ::
  "role \<Rightarrow> nat \<Rightarrow> UserData \<Rightarrow> nat \<Rightarrow> Server \<Rightarrow> Server \<Rightarrow> bool" where
  "still_waiting r i P D st1 st \<longleftrightarrow>
     waiting r i st = Some P \<and> waiting (other r) i st = None \<and>
     (r, \<lparr>due = D, theID = i, on_expire = pairFailed\<rparr>) \<in> set (timers st) \<and>
     (\<exists>es. out st = out st1 @ es \<and> pairFailed_for i es = [])"

definition has_expired :: "role \<Rightarrow> nat \<Rightarrow> UserData \<Rightarrow> Server \<Rightarrow> Server \<Rightarrow> bool" where
  "has_expired r i P st1 st \<longleftrightarrow>
     waiting r i st = None \<and> waiting (other r) i st = None \<and>
     (\<exists>es. out st = out st1 @ es \<and> pairFailed_for i es = [Emit P PairFailed])"

text \<open>Whether an event, handled in state \<open>st\<close>, inserts identity \<open>i\<close> into a waiting
  pool (a request under \<open>i\<close> that finds nobody); how often that happens while a list
  of events is handled from \<open>st\<close>; and the number of pools that hold an entry under
  \<open>i\<close>.\<close>

fun inserts :: "nat \<Rightarrow> Server \<Rightarrow> event \<Rightarrow> bool" where
  "inserts i st (PairToSend s j geo fileInfo) =
     (j = i \<and> obj_delete j (store (toReceive st)) = [])"
| "inserts i st (PairToReceive s j geo) =
     (j = i \<and> obj_delete j (store (toSend st)) = [])"
| "inserts i st ev = False"

fun insertions :: "nat \<Rightarrow> Server \<Rightarrow> event list \<Rightarrow> nat" where
  "insertions i st [] = 0"
| "insertions i st (ev # evs) =
     (if inserts i st ev then 1 else 0) + insertions i (handle_event ev st) evs"

definition entries :: "nat \<Rightarrow> Server \<Rightarrow> nat" where
  "entries i st =
     (if obj_in i (store (toSend st)) then 1 else 0) +
     (if obj_in i (store (toReceive st)) then 1 else 0)"

text \<open>No identity waits in both pools at once.\<close>

definition pools_disjoint :: "Server \<Rightarrow> bool" where
  "pools_disjoint st \<longleftrightarrow>
     (\<forall>i. waiting ToSend i st = None \<or> waiting ToReceive i st = None)"

section \<open>Scenarios\<close>

text \<open>Sockets and peers for the scenarios below: peer \<open>n\<close> is the receive-only peer
  that \<open>onPairToReceive\<close> builds for a request under id \<open>n\<close> without geolocation.\<close>

definition sock :: "nat \<Rightarrow> Socket" where
  "sock n = \<lparr>handle = n, handshake_address = ''10.0.0.1'', handshake_port = 5000 + n\<rparr>"

definition peer :: "nat \<Rightarrow> UserData" where
  "peer n = receiving_user (sock n) n None"

text \<open>The pairing scenario: a receive request for identity 20, then a send request for
  identity 10 offering \<open>a.txt\<close> of size 100.\<close>

definition a_txt :: FileInfo where
  "a_txt = \<lparr>name = ''a.txt'', fsize = 100\<rparr>"

definition scenario_paired :: "event list" where
  "scenario_paired = [PairToReceive (sock 20) 20 None, PairToSend (sock 10) 10 None a_txt]"

text \<open>The same, followed by the confirmation of both peers.\<close>

definition scenario_confirmed :: "event list" where
  "scenario_confirmed = scenario_paired @ [ConfirmPair 10 20, ConfirmPair 20 10]"




text \<open>A sender that asked once, one second ago, and is still waiting.\<close>

definition scenario_retry :: "event list" where
  "scenario_retry = [PairToSend (sock 10) 10 None a_txt, Elapse 1000]"


text \<open>The same sender asks again, one second after its first request.\<close>

definition retry_early :: "event list" where
  "retry_early = scenario_retry @ [PairToSend (sock 10) 10 None a_txt]"

text \<open>Peer 10 is paired with peer 20 and then, without a clear in between, with peer 30.\<close>

definition stale_adds :: "emission Pairs_op list" where
  "stale_adds = [Add (peer 10) (peer 20), Add (peer 10) (peer 30)]"

section \<open>The invariants hold in every reachable state\<close>

lemma map_of_obj_set: "map_of (obj_set k v xs) = (map_of xs)(k \<mapsto> v)"
  by (induction xs) (auto simp add: fun_eq_iff)

lemma map_of_obj_delete: "map_of (obj_delete k xs) = (map_of xs)(k := None)"
  by (induction xs) (auto simp add: obj_delete_def fun_eq_iff)

lemma store_wf_obj_set: "store_wf xs \<Longrightarrow> user_id v = k \<Longrightarrow> store_wf (obj_set k v xs)"
  by (induction xs) (auto simp add: store_wf_def)

lemma store_wf_obj_delete: "store_wf xs \<Longrightarrow> store_wf (obj_delete k xs)"
  by (induction xs) (auto simp add: store_wf_def obj_delete_def)

lemma store_wf_map_of: "store_wf xs \<Longrightarrow> map_of xs k = Some u \<Longrightarrow> user_id u = k"
  by (induction xs) (auto simp add: store_wf_def split: if_splits)

lemma paired_clear_wf: "paired_wf P \<Longrightarrow> paired_wf (snd (paired_clear u P))"
  unfolding paired_clear_def con_at_def paired_wf_def
  apply (simp split: option.splits)
  apply metis
  done


lemma paired_clear_absent:
  "paired_wf P \<Longrightarrow> conns (snd (paired_clear u P)) u = None"
  unfolding paired_clear_def con_at_def paired_wf_def
  by (auto split: option.splits)

lemma paired_clear_keeps_absent:
  "conns P k = None \<Longrightarrow> conns (snd (paired_clear u P)) k = None"
  unfolding paired_clear_def con_at_def
  by (auto split: option.splits)

lemma paired_add_wf:
  assumes wf: "paired_wf P" and d: "user_id S \<noteq> user_id R"
  shows "paired_wf (snd (paired_add S R P))"
proof -
  obtain es1 P1 where p1: "paired_clear (user_id S) P = (es1, P1)" by force
  obtain es2 P2 where p2: "paired_clear (user_id R) P1 = (es2, P2)" by force
  have wf1: "paired_wf P1" using paired_clear_wf[OF wf, of "user_id S"] p1 by simp
  have wf2: "paired_wf P2" using paired_clear_wf[OF wf1, of "user_id R"] p2 by simp
  have s1: "conns P1 (user_id S) = None" using paired_clear_absent[OF wf, of "user_id S"] p1 by simp
  have s2: "conns P2 (user_id S) = None"
    using paired_clear_keeps_absent[OF s1, of "user_id R"] p2 by simp
  have r2: "conns P2 (user_id R) = None"
    using paired_clear_absent[OF wf1, of "user_id R"] p2 by simp
  define Q where "Q = snd (paired_add S R P)"
  define n where "n = length (objs P2)"
  have cq: "conns Q = ((conns P2)(user_id S \<mapsto> n))(user_id R \<mapsto> n)"
    by (simp add: Q_def n_def paired_add_def p1 p2 Let_def)
  have oq: "objs Q = objs P2 @ [\<lparr>sender = S, senderConfirmed = False, receiver = R,
                receiverConfirmed = False, status = ''INIT''\<rparr>]"
    by (simp add: Q_def paired_add_def p1 p2 Let_def)
  have "paired_wf Q"
    unfolding paired_wf_def
  proof (intro allI impI)
    fix k a
    assume h: "conns Q k = Some a"
    show "a < length (objs Q) \<and>
       user_id (sender (objs Q ! a)) \<noteq> user_id (receiver (objs Q ! a)) \<and>
       (k = user_id (sender (objs Q ! a)) \<or> k = user_id (receiver (objs Q ! a))) \<and>
       conns Q (user_id (sender (objs Q ! a))) = Some a \<and>
       conns Q (user_id (receiver (objs Q ! a))) = Some a"
    proof (cases "k = user_id S \<or> k = user_id R")
      case True
      then have "a = n" using h by (auto simp add: cq split: if_splits)
      then show ?thesis using d True by (auto simp add: cq oq n_def)
    next
      case False
      then have c: "conns P2 k = Some a" using h by (simp add: cq)
      from wf2 c have f: "a < length (objs P2)"
        "user_id (sender (objs P2 ! a)) \<noteq> user_id (receiver (objs P2 ! a))"
        "k = user_id (sender (objs P2 ! a)) \<or> k = user_id (receiver (objs P2 ! a))"
        "conns P2 (user_id (sender (objs P2 ! a))) = Some a"
        "conns P2 (user_id (receiver (objs P2 ! a))) = Some a"
        unfolding paired_wf_def by blast+
      have n: "user_id (sender (objs P2 ! a)) \<noteq> user_id S" "user_id (sender (objs P2 ! a)) \<noteq> user_id R"
         "user_id (receiver (objs P2 ! a)) \<noteq> user_id S" "user_id (receiver (objs P2 ! a)) \<noteq> user_id R"
        using f s2 r2 by auto
      show ?thesis using f n by (simp add: nth_append cq oq)
    qed
  qed
  then show ?thesis by (simp add: Q_def)
qed

lemma paired_confirm_wf: "paired_wf P \<Longrightarrow> paired_wf (snd (paired_confirm m p P))"
  unfolding paired_confirm_def paired_wf_def con_at_def
  by (auto simp add: Let_def nth_list_update split: option.splits if_splits)


lemma store_wf_clear: "store_wf (store U) \<Longrightarrow> store_wf (store (Users_clear i U))"
  by (simp add: Users_clear_def store_wf_obj_delete)

lemma pickUpon_result:
  "Users_pickUpon b U = (case store U of [] \<Rightarrow> None | (k, u) # rest \<Rightarrow> Some u, U)"
  by (simp add: Users_pickUpon_def split: list.splits)

lemma onPairToSend_miss:
  assumes "obj_delete i (store (toReceive st)) = []"
  shows "onPairToSend s i geo fi st =
     st\<lparr>toSend := \<lparr>store = obj_set i (sending_user s i geo fi) (obj_delete i (store (toSend st)))\<rparr>,
        toReceive := \<lparr>store = []\<rparr>,
        timers := timers st @
          [(ToSend, \<lparr>due = clock st + TIMEOUT, theID = i, on_expire = pairFailed\<rparr>)]\<rparr>"
proof -
  have uid: "user_id (sending_user s i geo fi) = i" by (simp add: sending_user_def)
  show ?thesis
    using assms uid
    by (simp add: onPairToSend_def Let_def pickUpon_result Users_clear_def Users_addTillExpire_def)
qed

lemma onPairToReceive_miss:
  assumes "obj_delete i (store (toSend st)) = []"
  shows "onPairToReceive s i geo st =
     st\<lparr>toSend := \<lparr>store = []\<rparr>,
        toReceive := \<lparr>store = obj_set i (receiving_user s i geo) (obj_delete i (store (toReceive st)))\<rparr>,
        timers := timers st @
          [(ToReceive, \<lparr>due = clock st + TIMEOUT, theID = i, on_expire = pairFailed\<rparr>)]\<rparr>"
proof -
  have uid: "user_id (receiving_user s i geo) = i" by (simp add: receiving_user_def)
  show ?thesis
    using assms uid
    by (simp add: onPairToReceive_def Let_def pickUpon_result Users_clear_def Users_addTillExpire_def)
qed

lemma onPairToSend_hit:
  assumes "obj_delete i (store (toReceive st)) = (k, p) # rest"
  shows "onPairToSend s i geo fi st =
     st\<lparr>toSend := \<lparr>store = obj_delete i (store (toSend st))\<rparr>,
        toReceive := \<lparr>store = obj_delete (user_id p) (obj_delete i (store (toReceive st)))\<rparr>,
        paired := snd (paired_add (sending_user s i geo fi) p (paired st)),
        out := out st @
          [Emit p (ReceiveFile i (Some (name fi)) (Some (fsize fi))),
           Emit (sending_user s i geo fi) (SendFile (user_id p) (Some (name fi)) (Some (fsize fi)))]
          @ fst (paired_add (sending_user s i geo fi) p (paired st))\<rparr>"
proof -
  have uid: "user_id (sending_user s i geo fi) = i" "fileName (sending_user s i geo fi) = Some (name fi)"
     "fileSize (sending_user s i geo fi) = Some (fsize fi)" by (simp_all add: sending_user_def)
  show ?thesis
    using assms uid
    by (simp add: onPairToSend_def Let_def pickUpon_result Users_clear_def split: prod.splits)
qed

lemma onPairToReceive_hit:
  assumes "obj_delete i (store (toSend st)) = (k, p) # rest"
  shows "onPairToReceive s i geo st =
     st\<lparr>toSend := \<lparr>store = obj_delete (user_id p) (obj_delete i (store (toSend st)))\<rparr>,
        toReceive := \<lparr>store = obj_delete i (store (toReceive st))\<rparr>,
        paired := snd (paired_add p (receiving_user s i geo) (paired st)),
        out := out st @
          [Emit p (ConfirmSend i (fileName p) (fileSize p)),
           Emit (receiving_user s i geo) (ConfirmReceive (user_id p) (fileName p) (fileSize p))]
          @ fst (paired_add p (receiving_user s i geo) (paired st))\<rparr>"
proof -
  have uid: "user_id (receiving_user s i geo) = i" by (simp add: receiving_user_def)
  show ?thesis
    using assms uid
    by (simp add: onPairToReceive_def Let_def pickUpon_result Users_clear_def split: prod.splits)
qed

lemma head_of_cleared:
  assumes wf: "store_wf xs" and h: "obj_delete i xs = (k, p) # rest"
  shows "user_id p \<noteq> i"
proof -
  have "(k, p) \<in> set (obj_delete i xs)" using h by simp
  then have "k \<noteq> i" and "(k, p) \<in> set xs" by (auto simp add: obj_delete_def)
  moreover from this wf have "user_id p = k" by (auto simp add: store_wf_def list_all_iff)
  ultimately show ?thesis by simp
qed

lemma onPairToSend_inv:
  assumes inv: "server_inv st"
  shows "server_inv (onPairToSend s i geo fi st)"
proof -
  have uid: "user_id (sending_user s i geo fi) = i" by (simp add: sending_user_def)
  have w1: "store_wf (store (toSend st))" and w2: "store_wf (store (toReceive st))"
    and tw: "timers_wf st" and pw: "paired_wf (paired st)"
    using inv by (simp_all add: server_inv_def pools_wf_def)
  show ?thesis
  proof (cases "obj_delete i (store (toReceive st))")
    case Nil
    show ?thesis
      using w1 w2 tw pw uid
      by (simp add: onPairToSend_miss[OF Nil] server_inv_def pools_wf_def timers_wf_def
          store_wf_obj_set store_wf_obj_delete) (simp add: store_wf_def)
  next
    case (Cons kp rest)
    obtain k p where kp: "kp = (k, p)" by force
    have h: "obj_delete i (store (toReceive st)) = (k, p) # rest" using Cons kp by simp
    have d: "user_id p \<noteq> i" using head_of_cleared[OF w2 h] .
    have pa: "paired_wf (snd (paired_add (sending_user s i geo fi) p (paired st)))"
      using paired_add_wf[OF pw, of "sending_user s i geo fi" p] d uid by simp
    show ?thesis
      using w1 w2 tw pa
      by (simp add: onPairToSend_hit[OF h] server_inv_def pools_wf_def timers_wf_def
          store_wf_obj_delete)
  qed
qed

lemma onPairToReceive_inv:
  assumes inv: "server_inv st"
  shows "server_inv (onPairToReceive s i geo st)"
proof -
  have uid: "user_id (receiving_user s i geo) = i" by (simp add: receiving_user_def)
  have w1: "store_wf (store (toSend st))" and w2: "store_wf (store (toReceive st))"
    and tw: "timers_wf st" and pw: "paired_wf (paired st)"
    using inv by (simp_all add: server_inv_def pools_wf_def)
  show ?thesis
  proof (cases "obj_delete i (store (toSend st))")
    case Nil
    show ?thesis
      using w1 w2 tw pw uid
      by (simp add: onPairToReceive_miss[OF Nil] server_inv_def pools_wf_def timers_wf_def
          store_wf_obj_set store_wf_obj_delete) (simp add: store_wf_def)
  next
    case (Cons kp rest)
    obtain k p where kp: "kp = (k, p)" by force
    have h: "obj_delete i (store (toSend st)) = (k, p) # rest" using Cons kp by simp
    have d: "user_id p \<noteq> i" using head_of_cleared[OF w1 h] .
    have pa: "paired_wf (snd (paired_add p (receiving_user s i geo) (paired st)))"
      using paired_add_wf[OF pw, of p "receiving_user s i geo"] d uid by simp
    show ?thesis
      using w1 w2 tw pa
      by (simp add: onPairToReceive_hit[OF h] server_inv_def pools_wf_def timers_wf_def
          store_wf_obj_delete)
  qed
qed

lemma fire_inv: "server_inv st \<Longrightarrow> server_inv (fire rt st)"
  by (cases "fst rt")
    (auto simp add: fire_def Users_expire_def pool_def set_pool_def server_inv_def pools_wf_def
      timers_wf_def store_wf_obj_delete split: option.splits)

lemma foldl_fire_inv: "server_inv st \<Longrightarrow> server_inv (foldl (\<lambda>s rt. fire rt s) st rts)"
  by (induction rts arbitrary: st) (simp_all add: fire_inv)

lemma tick_inv:
  assumes "server_inv st"
  shows "server_inv (tick d st)"
proof -
  have a: "server_inv (st\<lparr>timers := filter (\<lambda>rt. \<not> due (snd rt) \<le> clock st + d) (timers st)\<rparr>)"
    using assms by (simp add: server_inv_def pools_wf_def timers_wf_def list_all_iff)
  have b: "\<And>s t. server_inv s \<Longrightarrow> server_inv (s\<lparr>clock := t\<rparr>)"
    by (simp add: server_inv_def pools_wf_def timers_wf_def)
  show ?thesis
    unfolding tick_def Let_def by (rule b, rule foldl_fire_inv, rule a)
qed

lemma handle_event_inv: "server_inv st \<Longrightarrow> server_inv (handle_event ev st)"
proof (cases ev)
  case (Connect s)
  assume "server_inv st"
  then show ?thesis using Connect
    by (simp add: initSocket_def server_inv_def pools_wf_def timers_wf_def)
next
  case (Disconnect i)
  assume "server_inv st"
  then show ?thesis using Disconnect
    by (simp add: onDisconnect_def server_inv_def pools_wf_def timers_wf_def store_wf_clear)
next
  case (PairToReceive s i geo)
  assume "server_inv st"
  then show ?thesis using PairToReceive by (simp add: onPairToReceive_inv)
next
  case (PairToSend s i geo fi)
  assume "server_inv st"
  then show ?thesis using PairToSend by (simp add: onPairToSend_inv)
next
  case (ConfirmFailed i)
  assume inv: "server_inv st"
  obtain es Q where c: "paired_clear i (paired st) = (es, Q)" by force
  have "paired_wf Q" using paired_clear_wf[of "paired st" i] inv c by (simp add: server_inv_def)
  then show ?thesis using ConfirmFailed inv c
    by (simp add: onConfirmFailed_def server_inv_def pools_wf_def timers_wf_def)
next
  case (ConfirmPair m p)
  assume inv: "server_inv st"
  obtain es Q where c: "paired_confirm m p (paired st) = (es, Q)" by force
  have "paired_wf Q" using paired_confirm_wf[of "paired st" m p] inv c by (simp add: server_inv_def)
  then show ?thesis using ConfirmPair inv c
    by (simp add: onConfirm_def server_inv_def pools_wf_def timers_wf_def)
next
  case (Elapse d)
  assume "server_inv st"
  then show ?thesis using Elapse by (simp add: tick_inv)
qed

lemma run_from_inv: "server_inv st \<Longrightarrow> server_inv (run_from st evs)"
  unfolding run_from_def
  by (induction evs arbitrary: st) (simp_all add: handle_event_inv)

lemma server_inv_init: "server_inv Server_init"
  by (simp add: server_inv_def pools_wf_def timers_wf_def paired_wf_def Server_init_def
      Users_new_def paired_init_def store_wf_def)

lemma run_inv: "server_inv (run evs)"
  unfolding run_def by (rule run_from_inv, rule server_inv_init)

text \<open>The timer queue.\<close>

lemma timers_ordered_append:
  assumes "timers_ordered st"
  shows "timers_ordered
     (st\<lparr>toSend := A, toReceive := B,
        timers := timers st @ [(r, \<lparr>due = clock st + TIMEOUT, theID = i, on_expire = cb\<rparr>)]\<rparr>)"
  using assms
  by (auto simp add: timers_ordered_def sorted_append list_all_iff TIMEOUT_def)

lemma onPairToSend_ordered: "timers_ordered st \<Longrightarrow> timers_ordered (onPairToSend s i geo fi st)"
proof (cases "obj_delete i (store (toReceive st))")
  case Nil
  assume "timers_ordered st"
  then show ?thesis
    unfolding onPairToSend_miss[OF Nil] by (rule timers_ordered_append)
next
  case (Cons kp rest)
  obtain k p where kp: "kp = (k, p)" by force
  have h: "obj_delete i (store (toReceive st)) = (k, p) # rest" using Cons kp by simp
  assume "timers_ordered st"
  then show ?thesis
    by (simp add: onPairToSend_hit[OF h] timers_ordered_def)
qed

lemma onPairToReceive_ordered: "timers_ordered st \<Longrightarrow> timers_ordered (onPairToReceive s i geo st)"
proof (cases "obj_delete i (store (toSend st))")
  case Nil
  assume "timers_ordered st"
  then show ?thesis
    unfolding onPairToReceive_miss[OF Nil] by (rule timers_ordered_append)
next
  case (Cons kp rest)
  obtain k p where kp: "kp = (k, p)" by force
  have h: "obj_delete i (store (toSend st)) = (k, p) # rest" using Cons kp by simp
  assume "timers_ordered st"
  then show ?thesis
    by (simp add: onPairToReceive_hit[OF h] timers_ordered_def)
qed

lemma fire_frame: "timers (fire rt st) = timers st \<and> clock (fire rt st) = clock st"
  by (cases "fst rt") (simp_all add: fire_def set_pool_def split: prod.splits)

lemma foldl_fire_frame:
  "timers (foldl (\<lambda>s rt. fire rt s) st rts) = timers st \<and>
   clock (foldl (\<lambda>s rt. fire rt s) st rts) = clock st"
  by (induction rts arbitrary: st) (simp_all add: fire_frame)

lemma tick_timers:
  "timers (tick d st) = filter (\<lambda>rt. \<not> due (snd rt) \<le> clock st + d) (timers st) \<and>
   clock (tick d st) = clock st + d"
  by (simp add: tick_def Let_def foldl_fire_frame)

lemma tick_ordered: "timers_ordered st \<Longrightarrow> timers_ordered (tick d st)"
  by (auto simp add: timers_ordered_def tick_timers list_all_iff sorted_filter)

lemma handle_event_ordered: "timers_ordered st \<Longrightarrow> timers_ordered (handle_event ev st)"
  by (cases ev)
    (simp_all add: onPairToSend_ordered onPairToReceive_ordered tick_ordered,
     simp_all add: timers_ordered_def initSocket_def onDisconnect_def onConfirmFailed_def
       onConfirm_def split: prod.splits)

lemma run_from_ordered: "timers_ordered st \<Longrightarrow> timers_ordered (run_from st evs)"
  unfolding run_from_def
  by (induction evs arbitrary: st) (simp_all add: handle_event_ordered)

lemma run_ordered: "timers_ordered (run evs)"
  unfolding run_def
  by (rule run_from_ordered) (simp add: timers_ordered_def Server_init_def)

text \<open>So in a reachable state the timers that \<open>tick\<close> runs are a prefix of the queue:
  the queue is in firing order.\<close>

lemma due_timers_prefix:
  "filter (\<lambda>rt. due (snd rt) \<le> t) (timers (run evs)) =
   takeWhile (\<lambda>rt. due (snd rt) \<le> t) (timers (run evs))"
proof -
  have s: "sorted (map (\<lambda>rt. due (snd rt)) (timers (run evs)))"
    using run_ordered[of evs] by (simp add: timers_ordered_def)
  have "\<And>xs :: (role \<times> Timer) list. sorted (map (\<lambda>rt. due (snd rt)) xs) \<Longrightarrow>
      filter (\<lambda>rt. due (snd rt) \<le> t) xs = takeWhile (\<lambda>rt. due (snd rt) \<le> t) xs"
  proof -
    fix xs :: "(role \<times> Timer) list"
    show "sorted (map (\<lambda>rt. due (snd rt)) xs) \<Longrightarrow>
      filter (\<lambda>rt. due (snd rt) \<le> t) xs = takeWhile (\<lambda>rt. due (snd rt) \<le> t) xs"
    proof (induction xs)
      case Nil then show ?case by simp
    next
      case (Cons x xs)
      show ?case
      proof (cases "due (snd x) \<le> t")
        case True
        then show ?thesis using Cons by simp
      next
        case False
        have "\<forall>y\<in>set xs. \<not> due (snd y) \<le> t" using Cons.prems False by auto
        then have "filter (\<lambda>rt. due (snd rt) \<le> t) xs = []"
          by (simp add: filter_empty_conv)
        then show ?thesis using False by simp
      qed
    qed
  qed
  then show ?thesis using s by blast
qed

section \<open>Running the timers that are due\<close>

text \<open>One timer removes the entry under its identity from its own pool and notifies that
  entry; a run of timers notifies a waiting entry once, by the first timer for its pool
  and identity, and later timers for it find nothing.\<close>

lemma pairFailed_for_simps:
  "pairFailed_for i [] = []"
  "pairFailed_for i (xs @ ys) = pairFailed_for i xs @ pairFailed_for i ys"
  "pairFailed_for i (Emit u m # ys) =
     (if user_id u = i \<and> m = PairFailed then Emit u m # pairFailed_for i ys
      else pairFailed_for i ys)"
  "pairFailed_for i (EmitSocket s m # ys) = pairFailed_for i ys"
  by (simp_all add: pairFailed_for_def)

lemma fire_waiting:
  "waiting r j (fire rt st) =
     (if r = fst rt \<and> j = theID (snd rt) then None else waiting r j st)"
  by (cases "fst rt"; cases r)
    (auto simp add: waiting_def fire_def Users_expire_def pool_def set_pool_def obj_in_def
      map_of_obj_delete split: option.splits)

lemma fire_out:
  assumes "on_expire (snd rt) = pairFailed"
  shows "out (fire rt st) =
     out st @ (case waiting (fst rt) (theID (snd rt)) st of
                 None \<Rightarrow> [] | Some u \<Rightarrow> [Emit u PairFailed])"
  using assms
  by (cases "fst rt")
    (auto simp add: waiting_def fire_def Users_expire_def pool_def set_pool_def obj_in_def
      pairFailed_def split: option.splits)

lemma fire_pools_wf: "pools_wf st \<Longrightarrow> pools_wf (fire rt st)"
  by (cases "fst rt")
    (auto simp add: fire_def Users_expire_def pool_def set_pool_def pools_wf_def
      store_wf_obj_delete split: option.splits)

lemma waiting_id: "pools_wf st \<Longrightarrow> waiting r j st = Some u \<Longrightarrow> user_id u = j"
  by (cases r) (auto simp add: waiting_def pool_def pools_wf_def dest: store_wf_map_of)

lemma fire_all_absent:
  assumes "pools_wf st" and "list_all (\<lambda>rt. on_expire (snd rt) = pairFailed) rts"
    and "waiting ToSend i st = None" and "waiting ToReceive i st = None"
  shows "waiting ToSend i (foldl (\<lambda>s rt. fire rt s) st rts) = None \<and>
         waiting ToReceive i (foldl (\<lambda>s rt. fire rt s) st rts) = None \<and>
         (\<exists>es. out (foldl (\<lambda>s rt. fire rt s) st rts) = out st @ es \<and> pairFailed_for i es = [])"
  using assms
proof (induction rts arbitrary: st)
  case Nil
  then show ?case by (simp add: pairFailed_for_simps)
next
  case (Cons rt rts)
  let ?st1 = "fire rt st"
  have cb: "on_expire (snd rt) = pairFailed" and rest: "list_all (\<lambda>rt. on_expire (snd rt) = pairFailed) rts"
    using Cons.prems(2) by simp_all
  have w1: "waiting ToSend i ?st1 = None" "waiting ToReceive i ?st1 = None"
    using Cons.prems(3,4) by (simp_all add: fire_waiting)
  have wf1: "pools_wf ?st1" using Cons.prems(1) by (rule fire_pools_wf)
  have o1: "\<exists>e1. out ?st1 = out st @ e1 \<and> pairFailed_for i e1 = []"
  proof (cases "waiting (fst rt) (theID (snd rt)) st")
    case None
    then show ?thesis by (simp add: fire_out[OF cb] pairFailed_for_simps)
  next
    case (Some u)
    have "user_id u = theID (snd rt)" using waiting_id[OF Cons.prems(1) Some] .
    moreover have "theID (snd rt) \<noteq> i"
      using Some Cons.prems(3,4) by (cases "fst rt") auto
    ultimately show ?thesis using Some by (simp add: fire_out[OF cb] pairFailed_for_simps)
  qed
  from Cons.IH[OF wf1 rest w1] o1 show ?case
    by (auto simp add: pairFailed_for_simps)
qed

lemma fire_all_present:
  assumes "pools_wf st" and "list_all (\<lambda>rt. on_expire (snd rt) = pairFailed) rts"
    and "waiting r i st = Some P" and "waiting (other r) i st = None"
  shows "\<exists>es. out (foldl (\<lambda>s rt. fire rt s) st rts) = out st @ es \<and>
     waiting (other r) i (foldl (\<lambda>s rt. fire rt s) st rts) = None \<and>
     (if \<exists>rt\<in>set rts. fst rt = r \<and> theID (snd rt) = i
      then waiting r i (foldl (\<lambda>s rt. fire rt s) st rts) = None \<and>
           pairFailed_for i es = [Emit P PairFailed]
      else waiting r i (foldl (\<lambda>s rt. fire rt s) st rts) = Some P \<and>
           pairFailed_for i es = [])"
  using assms
proof (induction rts arbitrary: st)
  case Nil
  then show ?case by (simp add: pairFailed_for_simps)
next
  case (Cons rt rts)
  let ?st1 = "fire rt st"
  have cb: "on_expire (snd rt) = pairFailed" and rest: "list_all (\<lambda>rt. on_expire (snd rt) = pairFailed) rts"
    using Cons.prems(2) by simp_all
  have wf1: "pools_wf ?st1" using Cons.prems(1) by (rule fire_pools_wf)
  have idP: "user_id P = i" using waiting_id[OF Cons.prems(1,3)] .
  have o: "other r \<noteq> r" by (cases r) (simp_all add: other_def)
  show ?case
  proof (cases "fst rt = r \<and> theID (snd rt) = i")
    case True
    have w1: "waiting r i ?st1 = None" "waiting (other r) i ?st1 = None"
      using True Cons.prems(4) by (simp_all add: fire_waiting)
    then have w1': "waiting ToSend i ?st1 = None" "waiting ToReceive i ?st1 = None"
      by (cases r; simp add: other_def)+
    have o1: "out ?st1 = out st @ [Emit P PairFailed]"
      using True Cons.prems(3) by (simp add: fire_out[OF cb])
    from fire_all_absent[OF wf1 rest w1'] obtain es where
      es: "out (foldl (\<lambda>s rt. fire rt s) ?st1 rts) = out ?st1 @ es" "pairFailed_for i es = []"
      and wa: "waiting ToSend i (foldl (\<lambda>s rt. fire rt s) ?st1 rts) = None"
              "waiting ToReceive i (foldl (\<lambda>s rt. fire rt s) ?st1 rts) = None"
      by blast
    have wr: "waiting r i (foldl (\<lambda>s rt. fire rt s) ?st1 rts) = None"
         "waiting (other r) i (foldl (\<lambda>s rt. fire rt s) ?st1 rts) = None"
      using wa by (cases r; simp add: other_def)+
    show ?thesis
      using True es o1 wr idP
      by (intro exI[of _ "[Emit P PairFailed] @ es"]) (simp add: pairFailed_for_simps)
  next
    case False
    have w1: "waiting r i ?st1 = Some P"
      using False Cons.prems(3) by (auto simp add: fire_waiting)
    have w2: "waiting (other r) i ?st1 = None"
      using Cons.prems(4) by (simp add: fire_waiting)
    have o1: "\<exists>e1. out ?st1 = out st @ e1 \<and> pairFailed_for i e1 = []"
    proof (cases "waiting (fst rt) (theID (snd rt)) st")
      case None
      then show ?thesis by (simp add: fire_out[OF cb] pairFailed_for_simps)
    next
      case (Some u)
      have "user_id u = theID (snd rt)" using waiting_id[OF Cons.prems(1) Some] .
      moreover have "theID (snd rt) \<noteq> i"
      proof
        assume e: "theID (snd rt) = i"
        then have "fst rt \<noteq> r" using False by simp
        then have "fst rt = other r" by (cases r; cases "fst rt"; simp add: other_def)
        then show False using Some e Cons.prems(4) by simp
      qed
      ultimately show ?thesis using Some by (simp add: fire_out[OF cb] pairFailed_for_simps)
    qed
    then obtain e1 where e1: "out ?st1 = out st @ e1" "pairFailed_for i e1 = []" by blast
    from Cons.IH[OF wf1 rest w1 w2] obtain es where
      es: "out (foldl (\<lambda>s rt. fire rt s) ?st1 rts) = out ?st1 @ es"
        "waiting (other r) i (foldl (\<lambda>s rt. fire rt s) ?st1 rts) = None"
        "(if \<exists>rt\<in>set rts. fst rt = r \<and> theID (snd rt) = i
          then waiting r i (foldl (\<lambda>s rt. fire rt s) ?st1 rts) = None \<and>
               pairFailed_for i es = [Emit P PairFailed]
          else waiting r i (foldl (\<lambda>s rt. fire rt s) ?st1 rts) = Some P \<and>
               pairFailed_for i es = [])"
      by blast
    show ?thesis
      using False es e1
      by (intro exI[of _ "e1 @ es"]) (auto simp add: pairFailed_for_simps)
  qed
qed

section \<open>Lookups that find nothing\<close>

text \<open>
  Claim C6. Confirming or clearing under an id that resolves to no stored connection
  changes nothing and throws nothing. \<open>Pairs.clear\<close> returns before it looks at the
  callback, \<open>Pairs.confirm\<close> returns \<open>false\<close>; the handlers' \<open>paired.clear\<close> and
  \<open>paired.confirm\<close> return without emitting (\<open>confirm\<close> already when either of its
  two ids is unknown).
\<close>

theorem missing_connection_is_noop:
  "(connections st conID = None \<longrightarrow>
      Pairs_clear conID fromUserID callback st = Inr ([], st) \<and>
      Pairs_confirm conID userID st = (False, st)) \<and>
   (con_at P uid = None \<longrightarrow> paired_clear uid P = ([], P)) \<and>
   (con_at P myID = None \<or> con_at P partnerID = None \<longrightarrow>
      paired_confirm myID partnerID P = ([], P))"
  by (simp add: Pairs_clear_def Pairs_confirm_def paired_clear_def paired_confirm_def)

theorem missing_connection_is_noop_witness:
  "Pairs_clear 7 (Some 1) (None :: (UserData \<Rightarrow> emission) option)
       (snd (Pairs_add (peer 1) (peer 2) Pairs_init))
     = Inr ([], snd (Pairs_add (peer 1) (peer 2) Pairs_init)) \<and>
   Pairs_confirm 7 1 (snd (Pairs_add (peer 1) (peer 2) Pairs_init))
     = (False, snd (Pairs_add (peer 1) (peer 2) Pairs_init)) \<and>
   paired_clear 3 (snd (paired_add (peer 1) (peer 2) paired_init))
     = ([], snd (paired_add (peer 1) (peer 2) paired_init)) \<and>
   paired_confirm 1 3 (snd (paired_add (peer 1) (peer 2) paired_init))
     = ([], snd (paired_add (peer 1) (peer 2) paired_init))"
proof -
  have a: "connections (snd (Pairs_add (peer 1) (peer 2) Pairs_init)) 7 = None"
    by (simp add: Pairs_add_def nextID_def Pairs_init_def)
  have b: "con_at (snd (paired_add (peer 1) (peer 2) paired_init)) 3 = None"
    by (simp add: paired_add_def paired_clear_def con_at_def paired_init_def
        peer_def receiving_user_def)
  show ?thesis
    using missing_connection_is_noop[of "snd (Pairs_add (peer 1) (peer 2) Pairs_init)" 7
        "Some 1" "None :: (UserData \<Rightarrow> emission) option" 1
        "snd (paired_add (peer 1) (peer 2) paired_init)" 3 1 3] a b
    by simp
qed

section \<open>Picking a candidate\<close>

text \<open>
  Claim C8. \<open>pickUpon\<close> never reads its argument: any two base users get the same
  answer from the same pool. The answer is the entry under the first enumerated key (one
  entry at most), it is \<open>undefined\<close> exactly when the store is empty, and the pool is
  left as it was.
\<close>

theorem pickUpon_ignores_base_user:
  "Users_pickUpon u1 U = Users_pickUpon u2 U \<and>
   snd (Users_pickUpon u1 U) = U \<and>
   fst (Users_pickUpon u1 U) = (case store U of [] \<Rightarrow> None | (k, u) # rest \<Rightarrow> Some u) \<and>
   (fst (Users_pickUpon u1 U) = None \<longleftrightarrow> store U = [])"
  by (auto simp add: Users_pickUpon_def split: list.splits)

section \<open>Double confirmation\<close>

text \<open>What \<open>paired.add\<close> leaves behind: \<open>clear\<close> never touches the objects, the new
  object is appended, and both participants' keys refer to it.\<close>

lemma paired_clear_objs: "objs (snd (paired_clear u P)) = objs P"
  by (simp add: paired_clear_def split: option.splits)

lemma paired_add_objs:
  "objs (snd (paired_add S R P)) =
     objs P @ [\<lparr>sender = S, senderConfirmed = False, receiver = R,
                receiverConfirmed = False, status = ''INIT''\<rparr>]"
proof -
  obtain es1 P1 where p1: "paired_clear (user_id S) P = (es1, P1)" by force
  obtain es2 P2 where p2: "paired_clear (user_id R) P1 = (es2, P2)" by force
  have "objs P1 = objs P" using paired_clear_objs[of "user_id S" P] p1 by simp
  moreover have "objs P2 = objs P1" using paired_clear_objs[of "user_id R" P1] p2 by simp
  ultimately show ?thesis by (simp add: paired_add_def p1 p2 Let_def)
qed

lemma paired_add_conns:
  "conns (snd (paired_add S R P)) (user_id S) = Some (length (objs P)) \<and>
   conns (snd (paired_add S R P)) (user_id R) = Some (length (objs P))"
proof -
  obtain es1 P1 where p1: "paired_clear (user_id S) P = (es1, P1)" by force
  obtain es2 P2 where p2: "paired_clear (user_id R) P1 = (es2, P2)" by force
  have "objs P1 = objs P" using paired_clear_objs[of "user_id S" P] p1 by simp
  moreover have "objs P2 = objs P1" using paired_clear_objs[of "user_id R" P1] p2 by simp
  ultimately show ?thesis by (simp add: paired_add_def p1 p2 Let_def)
qed

lemma paired_double_confirm:
  assumes d: "user_id S \<noteq> user_id R"
  shows
  "(let P0 = snd (paired_add S R P);
        r1 = paired_confirm (user_id S) (user_id R) P0;
        r2 = paired_confirm (user_id R) (user_id S) (snd r1);
        q1 = paired_confirm (user_id R) (user_id S) P0;
        q2 = paired_confirm (user_id S) (user_id R) (snd q1)
    in map_option status (con_at (snd r2) (user_id S)) = Some ''SENDING'' \<and>
       map_option status (con_at (snd q2) (user_id S)) = Some ''SENDING'' \<and>
       fst r1 @ fst r2 =
         [Emit S (StartSending (user_id S) (user_id R)),
          Emit R (StartSending (user_id S) (user_id R))] \<and>
       fst q1 @ fst q2 =
         [Emit S (StartSending (user_id S) (user_id R)),
          Emit R (StartSending (user_id S) (user_id R))] \<and>
       fst r1 = [] \<and> fst q1 = [] \<and> snd r2 = snd q2)"
proof -
  define P0 where "P0 = snd (paired_add S R P)"
  define a where "a = length (objs P)"
  have cs: "conns P0 (user_id S) = Some a" and cr: "conns P0 (user_id R) = Some a"
    using paired_add_conns[of S R P] by (simp_all add: P0_def a_def)
  have ob: "objs P0 = objs P @ [\<lparr>sender = S, senderConfirmed = False, receiver = R,
                receiverConfirmed = False, status = ''INIT''\<rparr>]"
    by (simp add: P0_def paired_add_objs)
  show ?thesis
    unfolding P0_def[symmetric] Let_def
    using d cs cr ob
    by (simp add: paired_confirm_def con_at_def a_def)
qed

lemma Pairs_double_confirm:
  assumes d: "user_id S \<noteq> user_id R"
  shows
  "(let c = fst (Pairs_add S R st); st0 = snd (Pairs_add S R st);
        r1 = Pairs_confirm c (user_id S) st0;
        r2 = Pairs_confirm c (user_id R) (snd r1);
        q1 = Pairs_confirm c (user_id R) st0;
        q2 = Pairs_confirm c (user_id S) (snd q1)
    in \<not> fst r1 \<and> fst r2 \<and> \<not> fst q1 \<and> fst q2 \<and> snd r2 = snd q2)"
  using d by (simp add: Let_def Pairs_add_def nextID_def Pairs_confirm_def)

text \<open>The handlers never pair an identity with itself: the requesting identity is cleared
  from both pools before a partner is picked. So every connection they create is between
  two different ids, and is found under exactly those two ids.\<close>

lemma reachable_connections_distinct:
  assumes "con_at (paired (run evs)) k = Some con"
  shows "user_id (sender con) \<noteq> user_id (receiver con) \<and>
         (k = user_id (sender con) \<or> k = user_id (receiver con))"
proof -
  have wf: "paired_wf (paired (run evs))" using run_inv[of evs] by (simp add: server_inv_def)
  from assms obtain a where a: "conns (paired (run evs)) k = Some a"
      "a < length (objs (paired (run evs)))" "con = objs (paired (run evs)) ! a"
    by (auto simp add: con_at_def split: option.splits if_splits)
  from wf a show ?thesis unfolding paired_wf_def by blast
qed

text \<open>
  Claim C5. A connection has just been added for a sender \<open>S\<close> and a receiver \<open>R\<close>
  with different ids. In the handlers, confirming \<open>S\<close> then \<open>R\<close> and confirming
  \<open>R\<close> then \<open>S\<close> end in the same registry, with the connection's status
  \<open>SENDING\<close>; the first confirm emits nothing and the two confirms together emit one
  \<open>startSending\<close> to the sender and one to the receiver, each carrying the sender's
  and the receiver's id. In the model module \<open>Pairs.confirm\<close> only reports: in either
  order the first call returns \<open>false\<close>, the second \<open>true\<close>, and the registries agree.
\<close>

theorem double_confirmation_commutes:
  assumes d: "user_id S \<noteq> user_id R"
  shows
  "(let P0 = snd (paired_add S R P);
        r1 = paired_confirm (user_id S) (user_id R) P0;
        r2 = paired_confirm (user_id R) (user_id S) (snd r1);
        q1 = paired_confirm (user_id R) (user_id S) P0;
        q2 = paired_confirm (user_id S) (user_id R) (snd q1)
    in map_option status (con_at (snd r2) (user_id S)) = Some ''SENDING'' \<and>
       map_option status (con_at (snd q2) (user_id S)) = Some ''SENDING'' \<and>
       fst r1 @ fst r2 =
         [Emit S (StartSending (user_id S) (user_id R)),
          Emit R (StartSending (user_id S) (user_id R))] \<and>
       fst q1 @ fst q2 =
         [Emit S (StartSending (user_id S) (user_id R)),
          Emit R (StartSending (user_id S) (user_id R))] \<and>
       fst r1 = [] \<and> fst q1 = [] \<and> snd r2 = snd q2) \<and>
   (let c = fst (Pairs_add S R st); st0 = snd (Pairs_add S R st);
        r1 = Pairs_confirm c (user_id S) st0;
        r2 = Pairs_confirm c (user_id R) (snd r1);
        q1 = Pairs_confirm c (user_id R) st0;
        q2 = Pairs_confirm c (user_id S) (snd q1)
    in \<not> fst r1 \<and> fst r2 \<and> \<not> fst q1 \<and> fst q2 \<and> snd r2 = snd q2)"
  using paired_double_confirm[OF d] Pairs_double_confirm[OF d] by blast

theorem double_confirmation_commutes_witness:
  "user_id (peer 1) \<noteq> user_id (peer 2) \<and>
   (let P0 = snd (paired_add (peer 1) (peer 2) paired_init);
        r1 = paired_confirm 1 2 P0;
        r2 = paired_confirm 2 1 (snd r1);
        q1 = paired_confirm 2 1 P0;
        q2 = paired_confirm 1 2 (snd q1)
    in map_option status (con_at (snd r2) 1) = Some ''SENDING'' \<and>
       map_option status (con_at (snd q2) 1) = Some ''SENDING'' \<and>
       fst r1 @ fst r2 =
         [Emit (peer 1) (StartSending 1 2), Emit (peer 2) (StartSending 1 2)] \<and>
       fst q1 @ fst q2 =
         [Emit (peer 1) (StartSending 1 2), Emit (peer 2) (StartSending 1 2)])"
proof -
  have d: "user_id (peer 1) \<noteq> user_id (peer 2)"
    by (simp add: peer_def receiving_user_def)
  have i: "user_id (peer 1) = 1" "user_id (peer 2) = 2"
    by (simp_all add: peer_def receiving_user_def)
  show ?thesis
    using d double_confirmation_commutes[OF d, of paired_init Pairs_init]
    unfolding i Let_def by blast
qed

section \<open>Which side a confirmation counts for\<close>

text \<open>
  Claim C10. \<open>Pairs.confirm(conID, userID)\<close> on a stored connection, with any
  \<open>userID\<close> other than the sender's id, sets \<open>receiverConfirmed\<close> and touches nothing
  else; whether \<open>userID\<close> is the receiver's id is never looked at. It returns whether
  the sender had confirmed already.
\<close>

theorem confirm_by_non_sender_sets_receiverConfirmed:
  "connections st conID = Some con \<Longrightarrow> userID \<noteq> user_id (sender con) \<Longrightarrow>
   Pairs_confirm conID userID st =
     (senderConfirmed con,
      st\<lparr>connections := (connections st)(conID \<mapsto> con\<lparr>receiverConfirmed := True\<rparr>)\<rparr>)"
  by (auto simp add: Pairs_confirm_def)

theorem confirm_by_non_sender_sets_receiverConfirmed_witness:
  "connections (snd (Pairs_add (peer 10) (peer 20) Pairs_init)) 1 =
     Some \<lparr>sender = peer 10, senderConfirmed = False, receiver = peer 20,
           receiverConfirmed = False, status = ''INIT'', con_id = 1\<rparr> \<and>
   99 \<noteq> user_id (peer 10) \<and> 99 \<noteq> user_id (peer 20) \<and>
   fst (Pairs_confirm 1 99 (snd (Pairs_add (peer 10) (peer 20) Pairs_init))) = False \<and>
   connections (snd (Pairs_confirm 1 99 (snd (Pairs_add (peer 10) (peer 20) Pairs_init)))) 1 =
     Some \<lparr>sender = peer 10, senderConfirmed = False, receiver = peer 20,
           receiverConfirmed = True, status = ''INIT'', con_id = 1\<rparr>"
proof -
  let ?st = "snd (Pairs_add (peer 10) (peer 20) Pairs_init)"
  let ?con = "\<lparr>sender = peer 10, senderConfirmed = False, receiver = peer 20,
                   receiverConfirmed = False, status = ''INIT'', con_id = 1\<rparr>"
  have i: "user_id (peer 10) = 10" "user_id (peer 20) = 20"
    by (simp_all add: peer_def receiving_user_def)
  have a: "connections ?st 1 = Some ?con"
    by (simp add: Pairs_add_def nextID_def Pairs_init_def)
  have b: "(99::nat) \<noteq> user_id (sender ?con)"
    by (simp add: i)
  show ?thesis
    using confirm_by_non_sender_sets_receiverConfirmed[OF a b] a
    by (simp add: i)
qed

section \<open>Abandoning a connection\<close>

lemma scenario_paired_state:
  "paired (run scenario_paired) =
     \<lparr>conns = [10 \<mapsto> 0, 20 \<mapsto> 0],
      objs = [\<lparr>sender = sending_user (sock 10) 10 None a_txt, senderConfirmed = False,
               receiver = peer 20, receiverConfirmed = False, status = ''INIT''\<rparr>]\<rparr>"
  by (simp add: scenario_paired_def run_def run_from_def Server_init_def Users_new_def
      paired_init_def onPairToReceive_def onPairToSend_def Let_def pickUpon_result
      Users_clear_def Users_addTillExpire_def obj_delete_def paired_add_def paired_clear_def
      con_at_def peer_def receiving_user_def sending_user_def)

text \<open>
  Claim C7. When a participant of a connection abandons it, the one notification goes
  to the other participant. In the handlers this holds in every reachable state: the
  key \<open>userID\<close> under which \<open>paired.clear\<close> finds the connection is the id of one
  participant, the notification is emitted through the other participant's socket, that
  participant's id differs from \<open>userID\<close>, and the payload names \<open>userID\<close> as the
  partner. For \<open>Pairs.clear\<close>, with a connection between two different ids and the id
  of one of them as \<open>fromUserID\<close>: the callback is invoked on the other participant
  only (and not at all when the id is the falsy \<open>0\<close>).
\<close>

theorem clear_notifies_only_the_other:
  "(con_at (paired (run evs)) userID = Some con \<longrightarrow>
      fst (paired_clear userID (paired (run evs))) =
        [Emit (if userID = user_id (sender con) then receiver con else sender con)
              (if userID = user_id (sender con) then BetrayedSending userID
               else BetrayedReceiving userID)] \<and>
      user_id (if userID = user_id (sender con) then receiver con else sender con) \<noteq> userID) \<and>
   (connections st conID = Some c \<and> user_id (sender c) \<noteq> user_id (receiver c) \<and>
    (f = user_id (sender c) \<or> f = user_id (receiver c)) \<longrightarrow>
      Pairs_clear conID (Some f) (Some cb) st =
        Inr (if f = 0 then []
             else [cb (if f = user_id (sender c) then receiver c else sender c)],
             st\<lparr>connections := (connections st)(conID := None),
                indices := ((indices st)(user_id (sender c) := None))
                             (user_id (receiver c) := None)\<rparr>) \<and>
      user_id (if f = user_id (sender c) then receiver c else sender c) \<noteq> f)"
proof (intro conjI impI)
  assume h: "con_at (paired (run evs)) userID = Some con"
  have wf: "paired_wf (paired (run evs))" using run_inv[of evs] by (simp add: server_inv_def)
  from h obtain a where a: "conns (paired (run evs)) userID = Some a"
      "a < length (objs (paired (run evs)))" "con = objs (paired (run evs)) ! a"
    by (auto simp add: con_at_def split: option.splits if_splits)
  from wf a have d: "user_id (sender con) \<noteq> user_id (receiver con)"
    and k: "userID = user_id (sender con) \<or> userID = user_id (receiver con)"
    unfolding paired_wf_def by blast+
  show "fst (paired_clear userID (paired (run evs))) =
        [Emit (if userID = user_id (sender con) then receiver con else sender con)
              (if userID = user_id (sender con) then BetrayedSending userID
               else BetrayedReceiving userID)]"
    using h d k by (auto simp add: paired_clear_def)
  show "user_id (if userID = user_id (sender con) then receiver con else sender con) \<noteq> userID"
    using d k by auto
next
  assume h: "connections st conID = Some c \<and> user_id (sender c) \<noteq> user_id (receiver c) \<and>
    (f = user_id (sender c) \<or> f = user_id (receiver c))"
  show "Pairs_clear conID (Some f) (Some cb) st =
        Inr (if f = 0 then []
             else [cb (if f = user_id (sender c) then receiver c else sender c)],
             st\<lparr>connections := (connections st)(conID := None),
                indices := ((indices st)(user_id (sender c) := None))
                             (user_id (receiver c) := None)\<rparr>)"
    using h by (auto simp add: Pairs_clear_def truthy_def)
  show "user_id (if f = user_id (sender c) then receiver c else sender c) \<noteq> f"
    using h by auto
qed

theorem clear_notifies_only_the_other_witness:
  "fst (paired_clear 20 (paired (run scenario_paired))) =
     [Emit (sending_user (sock 10) 10 None a_txt) (BetrayedReceiving 20)] \<and>
   user_id (sending_user (sock 10) 10 None a_txt) \<noteq> 20 \<and>
   map_sum id fst
     (Pairs_clear 1 (Some 10) (Some (\<lambda>u. Emit u (BetrayedSending 10)))
        (snd (Pairs_add (peer 10) (peer 20) Pairs_init))) =
     Inr [Emit (peer 20) (BetrayedSending 10)] \<and>
   user_id (peer 20) \<noteq> 10"
proof -
  let ?con = "\<lparr>sender = sending_user (sock 10) 10 None a_txt, senderConfirmed = False,
               receiver = peer 20, receiverConfirmed = False, status = ''INIT''\<rparr>"
  let ?c = "\<lparr>sender = peer 10, senderConfirmed = False, receiver = peer 20,
             receiverConfirmed = False, status = ''INIT'', con_id = 1\<rparr>"
  have i: "user_id (peer 10) = 10" "user_id (peer 20) = 20"
    "user_id (sending_user (sock 10) 10 None a_txt) = 10"
    by (simp_all add: peer_def receiving_user_def sending_user_def)
  have a: "con_at (paired (run scenario_paired)) 20 = Some ?con"
    by (simp add: scenario_paired_state con_at_def)
  have b: "connections (snd (Pairs_add (peer 10) (peer 20) Pairs_init)) 1 = Some ?c \<and>
     user_id (sender ?c) \<noteq> user_id (receiver ?c) \<and>
     (10 = user_id (sender ?c) \<or> 10 = user_id (receiver ?c))"
    by (simp add: Pairs_add_def nextID_def Pairs_init_def i)
  show ?thesis
    using clear_notifies_only_the_other[of scenario_paired 20 ?con
        "snd (Pairs_add (peer 10) (peer 20) Pairs_init)" 1 ?c 10 "\<lambda>u. Emit u (BetrayedSending 10)"]
      a b
    by (simp add: i)
qed

lemma scenario_confirmed_state:
  "paired (run scenario_confirmed) =
     \<lparr>conns = [10 \<mapsto> 0, 20 \<mapsto> 0],
      objs = [\<lparr>sender = sending_user (sock 10) 10 None a_txt, senderConfirmed = True,
               receiver = peer 20, receiverConfirmed = True, status = ''SENDING''\<rparr>]\<rparr>"
proof -
  have i: "user_id (sending_user (sock 10) 10 None a_txt) = 10" "user_id (peer 20) = 20"
    by (simp_all add: peer_def receiving_user_def sending_user_def)
  have r: "run scenario_confirmed =
      onConfirm 20 10 (onConfirm 10 20 (run scenario_paired))"
    by (simp add: scenario_confirmed_def run_def run_from_def)
  show ?thesis
    unfolding r using i
    by (simp add: onConfirm_def paired_confirm_def con_at_def scenario_paired_state Let_def)
qed

text \<open>
  Claim C9. Neither \<open>clear\<close> looks at the confirmation flags or the status. Whatever
  they are, \<open>paired.clear\<close> on an id with a connection emits the betrayal notification
  (\<open>betrayedSending\<close> to the receiver when the id is the sender's, \<open>betrayedReceiving\<close>
  to the sender otherwise), and \<open>Pairs.clear\<close> with a truthy \<open>fromUserID\<close> and a
  callback invokes the callback once, on the receiver when the id is the sender's and on
  the sender otherwise. This includes a connection that both sides have confirmed and
  whose status is \<open>SENDING\<close>.
\<close>

theorem clear_notifies_whatever_the_status:
  "(con_at P userID = Some con \<longrightarrow>
      fst (paired_clear userID P) =
        [if userID = user_id (sender con)
         then Emit (receiver con) (BetrayedSending (user_id (sender con)))
         else Emit (sender con) (BetrayedReceiving (user_id (receiver con)))]) \<and>
   (connections st conID = Some c \<and> truthy fromUserID \<longrightarrow>
      Pairs_clear conID fromUserID (Some cb) st =
        Inr ([cb (if fromUserID = Some (user_id (sender c)) then receiver c else sender c)],
             st\<lparr>connections := (connections st)(conID := None),
                indices := ((indices st)(user_id (sender c) := None))
                             (user_id (receiver c) := None)\<rparr>))"
  by (auto simp add: paired_clear_def Pairs_clear_def)

theorem clear_notifies_whatever_the_status_witness:
  "map_option status (con_at (paired (run scenario_confirmed)) 10) = Some ''SENDING'' \<and>
   fst (paired_clear 10 (paired (run scenario_confirmed))) =
     [Emit (peer 20) (BetrayedSending 10)] \<and>
   truthy (Some 20) \<and>
   map_sum id fst
     (Pairs_clear 1 (Some 20) (Some (\<lambda>u. Emit u (BetrayedReceiving 20)))
        (snd (Pairs_confirm 1 20 (snd (Pairs_confirm 1 10
           (snd (Pairs_add (peer 10) (peer 20) Pairs_init))))))) =
     Inr [Emit (peer 10) (BetrayedReceiving 20)]"
proof -
  let ?con = "\<lparr>sender = sending_user (sock 10) 10 None a_txt, senderConfirmed = True,
               receiver = peer 20, receiverConfirmed = True, status = ''SENDING''\<rparr>"
  let ?c = "\<lparr>sender = peer 10, senderConfirmed = True, receiver = peer 20,
             receiverConfirmed = True, status = ''INIT'', con_id = 1\<rparr>"
  let ?st = "snd (Pairs_confirm 1 20 (snd (Pairs_confirm 1 10
           (snd (Pairs_add (peer 10) (peer 20) Pairs_init)))))"
  have i: "user_id (peer 10) = 10" "user_id (peer 20) = 20"
    "user_id (sending_user (sock 10) 10 None a_txt) = 10"
    by (simp_all add: peer_def receiving_user_def sending_user_def)
  have a: "con_at (paired (run scenario_confirmed)) 10 = Some ?con"
    by (simp add: scenario_confirmed_state con_at_def)
  have b: "connections ?st 1 = Some ?c \<and> truthy (Some 20)"
    by (simp add: Pairs_add_def nextID_def Pairs_init_def Pairs_confirm_def i truthy_def)
  show ?thesis
    using clear_notifies_whatever_the_status[of "paired (run scenario_confirmed)" 10 ?con
        ?st 1 ?c "Some 20" "\<lambda>u. Emit u (BetrayedReceiving 20)"]
      a b
    by (simp add: i)
qed

section \<open>Expiry of an unmatched peer\<close>

lemma paired_clear_no_pairFailed: "pairFailed_for i (fst (paired_clear u P)) = []"
  by (simp add: paired_clear_def pairFailed_for_simps split: option.splits)

lemma paired_add_no_pairFailed: "pairFailed_for i (fst (paired_add S R P)) = []"
proof -
  obtain es1 P1 where p1: "paired_clear (user_id S) P = (es1, P1)" by force
  obtain es2 P2 where p2: "paired_clear (user_id R) P1 = (es2, P2)" by force
  have "pairFailed_for i es1 = []" using paired_clear_no_pairFailed[of i "user_id S" P] p1 by simp
  moreover have "pairFailed_for i es2 = []"
    using paired_clear_no_pairFailed[of i "user_id R" P1] p2 by simp
  ultimately show ?thesis by (simp add: paired_add_def p1 p2 Let_def pairFailed_for_simps)
qed

lemma paired_confirm_no_pairFailed: "pairFailed_for i (fst (paired_confirm m p P)) = []"
  by (simp add: paired_confirm_def pairFailed_for_simps Let_def split: option.splits)

lemma map_of_None_obj_delete: "map_of xs i = None \<Longrightarrow> map_of (obj_delete j xs) i = None"
  by (simp add: map_of_obj_delete)

lemma head_key_is_id:
  assumes wf: "store_wf xs" and h: "obj_delete j xs = (k, p) # rest"
  shows "user_id p = k"
proof -
  have "(k, p) \<in> set (obj_delete j xs)" using h by simp
  then have "(k, p) \<in> set xs" by (auto simp add: obj_delete_def)
  then show ?thesis using wf by (auto simp add: store_wf_def list_all_iff)
qed

lemma onPairToSend_effect:
  assumes ji: "j \<noteq> i" and wf: "pools_wf st"
    and fk: "first_key (obj_delete j (store (toReceive st))) \<noteq> Some i"
  shows "waiting ToSend i (onPairToSend s j geo fi st) = waiting ToSend i st \<and>
    waiting ToReceive i (onPairToSend s j geo fi st) = waiting ToReceive i st \<and>
    (\<exists>es. out (onPairToSend s j geo fi st) = out st @ es \<and> pairFailed_for i es = []) \<and>
    set (timers st) \<subseteq> set (timers (onPairToSend s j geo fi st)) \<and>
    clock (onPairToSend s j geo fi st) = clock st"
proof (cases "obj_delete j (store (toReceive st))")
  case Nil
  have "map_of (obj_delete j (store (toReceive st))) i = map_of (store (toReceive st)) i"
    using ji by (simp add: map_of_obj_delete)
  then have n: "map_of (store (toReceive st)) i = None" using Nil by simp
  show ?thesis
    using ji n
    by (auto simp add: onPairToSend_miss[OF Nil] waiting_def pool_def map_of_obj_set
        map_of_obj_delete pairFailed_for_simps)
next
  case (Cons kp rest)
  obtain k p where kp: "kp = (k, p)" by force
  have h: "obj_delete j (store (toReceive st)) = (k, p) # rest" using Cons kp by simp
  have ki: "k \<noteq> i" using fk h by (simp add: first_key_def)
  have "user_id p = k" using head_key_is_id[OF _ h] wf by (simp add: pools_wf_def)
  then have pi: "user_id p \<noteq> i" using ki by simp
  show ?thesis
    using ji pi
    by (simp add: onPairToSend_hit[OF h] waiting_def pool_def map_of_obj_delete
        pairFailed_for_simps paired_add_no_pairFailed)
qed

lemma onPairToReceive_effect:
  assumes ji: "j \<noteq> i" and wf: "pools_wf st"
    and fk: "first_key (obj_delete j (store (toSend st))) \<noteq> Some i"
  shows "waiting ToSend i (onPairToReceive s j geo st) = waiting ToSend i st \<and>
    waiting ToReceive i (onPairToReceive s j geo st) = waiting ToReceive i st \<and>
    (\<exists>es. out (onPairToReceive s j geo st) = out st @ es \<and> pairFailed_for i es = []) \<and>
    set (timers st) \<subseteq> set (timers (onPairToReceive s j geo st)) \<and>
    clock (onPairToReceive s j geo st) = clock st"
proof (cases "obj_delete j (store (toSend st))")
  case Nil
  have "map_of (obj_delete j (store (toSend st))) i = map_of (store (toSend st)) i"
    using ji by (simp add: map_of_obj_delete)
  then have n: "map_of (store (toSend st)) i = None" using Nil by simp
  show ?thesis
    using ji n
    by (auto simp add: onPairToReceive_miss[OF Nil] waiting_def pool_def map_of_obj_set
        map_of_obj_delete pairFailed_for_simps)
next
  case (Cons kp rest)
  obtain k p where kp: "kp = (k, p)" by force
  have h: "obj_delete j (store (toSend st)) = (k, p) # rest" using Cons kp by simp
  have ki: "k \<noteq> i" using fk h by (simp add: first_key_def)
  have "user_id p = k" using head_key_is_id[OF _ h] wf by (simp add: pools_wf_def)
  then have pi: "user_id p \<noteq> i" using ki by simp
  show ?thesis
    using ji pi
    by (simp add: onPairToReceive_hit[OF h] waiting_def pool_def map_of_obj_delete
        pairFailed_for_simps paired_add_no_pairFailed)
qed

lemma passing_event_effect:
  assumes pb: "passes_by i st ev" and wf: "pools_wf st" and ne: "\<forall>d. ev \<noteq> Elapse d"
  shows "waiting ToSend i (handle_event ev st) = waiting ToSend i st \<and>
    waiting ToReceive i (handle_event ev st) = waiting ToReceive i st \<and>
    (\<exists>es. out (handle_event ev st) = out st @ es \<and> pairFailed_for i es = []) \<and>
    set (timers st) \<subseteq> set (timers (handle_event ev st)) \<and>
    clock (handle_event ev st) = clock st"
proof (cases ev)
  case (Connect s)
  then show ?thesis
    by (simp add: initSocket_def waiting_def pool_def pairFailed_for_simps)
next
  case (Disconnect j)
  then show ?thesis using pb
    by (simp add: onDisconnect_def waiting_def pool_def Users_clear_def
        map_of_obj_delete pairFailed_for_simps)
next
  case (PairToReceive s j geo)
  then have j: "j \<noteq> i" and fk: "first_key (obj_delete j (store (toSend st))) \<noteq> Some i"
    using pb by simp_all
  show ?thesis
    using onPairToReceive_effect[OF j wf fk, of s geo] PairToReceive by simp
next
  case (PairToSend s j geo fi)
  then have j: "j \<noteq> i" and fk: "first_key (obj_delete j (store (toReceive st))) \<noteq> Some i"
    using pb by simp_all
  show ?thesis
    using onPairToSend_effect[OF j wf fk, of s geo fi] PairToSend by simp
next
  case (ConfirmFailed m)
  obtain es Q where c: "paired_clear m (paired st) = (es, Q)" by force
  have "pairFailed_for i es = []" using paired_clear_no_pairFailed[of i m "paired st"] c by simp
  then show ?thesis using ConfirmFailed c
    by (simp add: onConfirmFailed_def waiting_def pool_def)
next
  case (ConfirmPair m p)
  obtain es Q where c: "paired_confirm m p (paired st) = (es, Q)" by force
  have "pairFailed_for i es = []" using paired_confirm_no_pairFailed[of i m p "paired st"] c by simp
  then show ?thesis using ConfirmPair c
    by (simp add: onConfirm_def waiting_def pool_def)
next
  case (Elapse d)
  then show ?thesis using ne by simp
qed

lemma passing_event_role:
  assumes pb: "passes_by i st ev" and wf: "pools_wf st" and ne: "\<forall>d. ev \<noteq> Elapse d"
  shows "waiting r i (handle_event ev st) = waiting r i st"
  using passing_event_effect[OF pb wf ne] by (cases r) simp_all

lemma waiting_frame:
  "waiting r i (st\<lparr>timers := ts\<rparr>) = waiting r i st"
  "waiting r i (st\<lparr>clock := t\<rparr>) = waiting r i st"
  by (cases r; simp add: waiting_def pool_def)+

lemma pools_wf_frame: "pools_wf (st\<lparr>timers := ts\<rparr>) = pools_wf st"
  by (simp add: pools_wf_def)

lemma tick_view:
  "out (tick d st) =
     out (foldl (\<lambda>s rt. fire rt s)
       (st\<lparr>timers := filter (\<lambda>rt. \<not> due (snd rt) \<le> clock st + d) (timers st)\<rparr>)
       (filter (\<lambda>rt. due (snd rt) \<le> clock st + d) (timers st)))"
  "waiting r i (tick d st) =
     waiting r i (foldl (\<lambda>s rt. fire rt s)
       (st\<lparr>timers := filter (\<lambda>rt. \<not> due (snd rt) \<le> clock st + d) (timers st)\<rparr>)
       (filter (\<lambda>rt. due (snd rt) \<le> clock st + d) (timers st)))"
  by (simp_all add: tick_def Let_def waiting_frame)

lemma tick_absent:
  assumes inv: "server_inv st"
    and a: "waiting ToSend i st = None" "waiting ToReceive i st = None"
  shows "waiting ToSend i (tick d st) = None \<and> waiting ToReceive i (tick d st) = None \<and>
     (\<exists>es. out (tick d st) = out st @ es \<and> pairFailed_for i es = [])"
proof -
  let ?ready = "filter (\<lambda>rt. due (snd rt) \<le> clock st + d) (timers st)"
  let ?st0 = "st\<lparr>timers := filter (\<lambda>rt. \<not> due (snd rt) \<le> clock st + d) (timers st)\<rparr>"
  have wf: "pools_wf ?st0" using inv by (simp add: server_inv_def pools_wf_frame)
  have cb: "list_all (\<lambda>rt. on_expire (snd rt) = pairFailed) ?ready"
    using inv by (simp add: server_inv_def timers_wf_def list_all_iff)
  have a0: "waiting ToSend i ?st0 = None" "waiting ToReceive i ?st0 = None"
    using a by (simp_all add: waiting_frame)
  have o0: "out ?st0 = out st" by simp
  from fire_all_absent[OF wf cb a0] show ?thesis
    unfolding tick_view o0 .
qed

lemma tick_present:
  assumes inv: "server_inv st"
    and p: "waiting r i st = Some P" "waiting (other r) i st = None"
  shows "\<exists>es. out (tick d st) = out st @ es \<and>
     waiting (other r) i (tick d st) = None \<and>
     (if \<exists>rt\<in>set (timers st). due (snd rt) \<le> clock st + d \<and> fst rt = r \<and> theID (snd rt) = i
      then waiting r i (tick d st) = None \<and> pairFailed_for i es = [Emit P PairFailed]
      else waiting r i (tick d st) = Some P \<and> pairFailed_for i es = [])"
proof -
  let ?ready = "filter (\<lambda>rt. due (snd rt) \<le> clock st + d) (timers st)"
  let ?st0 = "st\<lparr>timers := filter (\<lambda>rt. \<not> due (snd rt) \<le> clock st + d) (timers st)\<rparr>"
  have wf: "pools_wf ?st0" using inv by (simp add: server_inv_def pools_wf_frame)
  have cb: "list_all (\<lambda>rt. on_expire (snd rt) = pairFailed) ?ready"
    using inv by (simp add: server_inv_def timers_wf_def list_all_iff)
  have p0: "waiting r i ?st0 = Some P" "waiting (other r) i ?st0 = None"
    using p by (simp_all add: waiting_frame)
  have o0: "out ?st0 = out st" by simp
  have e: "(\<exists>rt\<in>set ?ready. fst rt = r \<and> theID (snd rt) = i) \<longleftrightarrow>
      (\<exists>rt\<in>set (timers st). due (snd rt) \<le> clock st + d \<and> fst rt = r \<and> theID (snd rt) = i)"
    unfolding set_filter by blast
  from fire_all_present[OF wf cb p0] show ?thesis
    unfolding e tick_view o0 .
qed


lemma none_both:
  "waiting r i st = None \<and> waiting (other r) i st = None \<longleftrightarrow>
   waiting ToSend i st = None \<and> waiting ToReceive i st = None"
  by (cases r) (auto simp add: other_def)

lemma step_expired:
  assumes inv: "server_inv st" and lw: "passes_by i st ev"
    and ex: "has_expired r i P st1 st"
  shows "has_expired r i P st1 (handle_event ev st)"
proof -
  from ex obtain es where w: "waiting r i st = None" "waiting (other r) i st = None"
    and es: "out st = out st1 @ es" "pairFailed_for i es = [Emit P PairFailed]"
    unfolding has_expired_def by blast
  have "waiting r i (handle_event ev st) = None \<and>
        waiting (other r) i (handle_event ev st) = None \<and>
        (\<exists>e2. out (handle_event ev st) = out st @ e2 \<and> pairFailed_for i e2 = [])"
  proof (cases "\<exists>d. ev = Elapse d")
    case True
    then obtain d where d: "ev = Elapse d" by blast
    have b: "waiting ToSend i st = None" "waiting ToReceive i st = None"
      using w none_both[of r i st] by simp_all
    show ?thesis using tick_absent[OF inv b, of d] d none_both[of r i "tick d st"] by simp
  next
    case False
    then have ne: "\<forall>d. ev \<noteq> Elapse d" by simp
    have wf: "pools_wf st" using inv by (simp add: server_inv_def)
    show ?thesis
      using passing_event_effect[OF lw wf ne] passing_event_role[OF lw wf ne, of r]
        passing_event_role[OF lw wf ne, of "other r"] w
      by simp
  qed
  then obtain e2 where "waiting r i (handle_event ev st) = None"
    "waiting (other r) i (handle_event ev st) = None"
    "out (handle_event ev st) = out st @ e2" "pairFailed_for i e2 = []" by blast
  then show ?thesis
    unfolding has_expired_def using es
    by (intro conjI exI[of _ "es @ e2"]) (simp_all add: pairFailed_for_simps)
qed

lemma step_waiting:
  assumes inv: "server_inv st" and lw: "passes_by i st ev"
    and sw: "still_waiting r i P D st1 st"
  shows "still_waiting r i P D st1 (handle_event ev st) \<or> has_expired r i P st1 (handle_event ev st)"
proof -
  let ?tm = "\<lparr>due = D, theID = i, on_expire = pairFailed\<rparr>"
  from sw obtain es where w: "waiting r i st = Some P" "waiting (other r) i st = None"
    and tm: "(r, ?tm) \<in> set (timers st)"
    and es: "out st = out st1 @ es" "pairFailed_for i es = []"
    unfolding still_waiting_def by blast
  show ?thesis
  proof (cases "\<exists>d. ev = Elapse d")
    case True
    then obtain d where d: "ev = Elapse d" by blast
    from tick_present[OF inv w, of d] obtain e2 where
      o: "out (tick d st) = out st @ e2" and wo: "waiting (other r) i (tick d st) = None"
      and c: "(if \<exists>rt\<in>set (timers st). due (snd rt) \<le> clock st + d \<and> fst rt = r \<and> theID (snd rt) = i
         then waiting r i (tick d st) = None \<and> pairFailed_for i e2 = [Emit P PairFailed]
         else waiting r i (tick d st) = Some P \<and> pairFailed_for i e2 = [])"
      by blast
    show ?thesis
    proof (cases "\<exists>rt\<in>set (timers st). due (snd rt) \<le> clock st + d \<and> fst rt = r \<and> theID (snd rt) = i")
      case True
      then have "waiting r i (tick d st) = None" "pairFailed_for i e2 = [Emit P PairFailed]"
        using c by simp_all
      then have "has_expired r i P st1 (tick d st)"
        unfolding has_expired_def using wo o es
        by (intro conjI exI[of _ "es @ e2"]) (simp_all add: pairFailed_for_simps)
      then show ?thesis using d by simp
    next
      case False
      then have k: "waiting r i (tick d st) = Some P" "pairFailed_for i e2 = []"
        using c by simp_all
      have "\<not> due ?tm \<le> clock st + d" using False tm by force
      then have "(r, ?tm) \<in> set (timers (tick d st))"
        using tm by (simp add: tick_timers)
      then have "still_waiting r i P D st1 (tick d st)"
        unfolding still_waiting_def using wo o es k
        by (intro conjI exI[of _ "es @ e2"]) (simp_all add: pairFailed_for_simps)
      then show ?thesis using d by simp
    qed
  next
    case False
    then have ne: "\<forall>d. ev \<noteq> Elapse d" by simp
    have wf: "pools_wf st" using inv by (simp add: server_inv_def)
    from passing_event_effect[OF lw wf ne] passing_event_role[OF lw wf ne, of r]
      passing_event_role[OF lw wf ne, of "other r"] w obtain e2 where
      q: "waiting r i (handle_event ev st) = Some P"
         "waiting (other r) i (handle_event ev st) = None"
         "out (handle_event ev st) = out st @ e2" "pairFailed_for i e2 = []"
         "set (timers st) \<subseteq> set (timers (handle_event ev st))"
      by auto
    have "still_waiting r i P D st1 (handle_event ev st)"
      unfolding still_waiting_def using q es tm
      by (intro conjI exI[of _ "es @ e2"]) (auto simp add: pairFailed_for_simps)
    then show ?thesis by simp
  qed
qed

lemma run_from_phase:
  assumes "server_inv st" and "undisturbed i st ws"
    and "still_waiting r i P D st1 st \<or> has_expired r i P st1 st"
  shows "still_waiting r i P D st1 (run_from st ws) \<or> has_expired r i P st1 (run_from st ws)"
  using assms
proof (induction ws arbitrary: st)
  case Nil
  then show ?case by (simp add: run_from_def)
next
  case (Cons ev ws)
  have lw: "passes_by i st ev" and rest: "undisturbed i (handle_event ev st) ws"
    using Cons.prems(2) by simp_all
  have inv': "server_inv (handle_event ev st)" using Cons.prems(1) by (rule handle_event_inv)
  have ph: "still_waiting r i P D st1 (handle_event ev st) \<or> has_expired r i P st1 (handle_event ev st)"
    using Cons.prems(3) step_waiting[OF Cons.prems(1) lw] step_expired[OF Cons.prems(1) lw] by blast
  have "run_from st (ev # ws) = run_from (handle_event ev st) ws" by (simp add: run_from_def)
  then show ?case using Cons.IH[OF inv' rest ph] by simp
qed

lemma handle_event_clock:
  "clock (handle_event ev st) = clock st + elapsed [ev]"
proof (cases ev)
  case (PairToReceive s j geo)
  show ?thesis
  proof (cases "obj_delete j (store (toSend st))")
    case Nil
    then show ?thesis using PairToReceive by (simp add: onPairToReceive_miss[OF Nil])
  next
    case (Cons kp rest)
    obtain k p where kp: "kp = (k, p)" by force
    have h: "obj_delete j (store (toSend st)) = (k, p) # rest" using Cons kp by simp
    show ?thesis using PairToReceive by (simp add: onPairToReceive_hit[OF h])
  qed
next
  case (PairToSend s j geo fi)
  show ?thesis
  proof (cases "obj_delete j (store (toReceive st))")
    case Nil
    then show ?thesis using PairToSend by (simp add: onPairToSend_miss[OF Nil])
  next
    case (Cons kp rest)
    obtain k p where kp: "kp = (k, p)" by force
    have h: "obj_delete j (store (toReceive st)) = (k, p) # rest" using Cons kp by simp
    show ?thesis using PairToSend by (simp add: onPairToSend_hit[OF h])
  qed
qed (simp_all add: initSocket_def onDisconnect_def onConfirmFailed_def onConfirm_def tick_timers
      split: prod.splits)

lemma elapsed_Cons: "elapsed (ev # evs) = elapsed [ev] + elapsed evs"
  by (cases ev) simp_all

lemma run_from_clock: "clock (run_from st ws) = clock st + elapsed ws"
proof (induction ws arbitrary: st)
  case Nil
  then show ?case by (simp add: run_from_def)
next
  case (Cons ev ws)
  have "run_from st (ev # ws) = run_from (handle_event ev st) ws" by (simp add: run_from_def)
  then show ?case
    using Cons.IH[of "handle_event ev st"] handle_event_clock[of ev st] elapsed_Cons[of ev ws]
    by simp
qed

lemma expires_by_deadline:
  assumes inv: "server_inv st1" and ord: "timers_ordered st1"
    and sw: "still_waiting r i P D st1 st1"
    and ws: "undisturbed i st1 ws" and el: "D \<le> clock st1 + elapsed ws"
  shows "has_expired r i P st1 (run_from st1 ws)"
proof -
  have "still_waiting r i P D st1 (run_from st1 ws) \<or> has_expired r i P st1 (run_from st1 ws)"
    using run_from_phase[OF inv ws] sw by blast
  moreover have "\<not> still_waiting r i P D st1 (run_from st1 ws)"
  proof
    assume a: "still_waiting r i P D st1 (run_from st1 ws)"
    then have tm: "(r, \<lparr>due = D, theID = i, on_expire = pairFailed\<rparr>)
        \<in> set (timers (run_from st1 ws))"
      unfolding still_waiting_def by blast
    have "timers_ordered (run_from st1 ws)" using ord by (rule run_from_ordered)
    then have "clock (run_from st1 ws) < D"
      using tm unfolding timers_ordered_def list_all_iff by force
    then show False using el by (simp add: run_from_clock)
  qed
  ultimately show ?thesis by blast
qed

lemma has_expired_view:
  assumes "has_expired r i P st1 st2"
  shows "pairFailed_for i (emitted_since st1 st2) = [Emit P PairFailed] \<and>
         \<not> obj_in i (store (pool r st2))"
  using assms unfolding has_expired_def emitted_since_def obj_in_def waiting_def by auto










section \<open>Asking again while the earlier timer is pending\<close>

text \<open>A pending timer stays in the queue until the clock reaches the time it is due.\<close>

lemma timer_stays:
  assumes "(r, tm) \<in> set (timers st)" and "clock st + elapsed [ev] < due tm"
  shows "(r, tm) \<in> set (timers (handle_event ev st))"
proof (cases ev)
  case (PairToReceive s j geo)
  show ?thesis
  proof (cases "obj_delete j (store (toSend st))")
    case Nil
    then show ?thesis using PairToReceive assms by (simp add: onPairToReceive_miss[OF Nil])
  next
    case (Cons kp rest)
    obtain k p where kp: "kp = (k, p)" by force
    have h: "obj_delete j (store (toSend st)) = (k, p) # rest" using Cons kp by simp
    show ?thesis using PairToReceive assms by (simp add: onPairToReceive_hit[OF h])
  qed
next
  case (PairToSend s j geo fi)
  show ?thesis
  proof (cases "obj_delete j (store (toReceive st))")
    case Nil
    then show ?thesis using PairToSend assms by (simp add: onPairToSend_miss[OF Nil])
  next
    case (Cons kp rest)
    obtain k p where kp: "kp = (k, p)" by force
    have h: "obj_delete j (store (toReceive st)) = (k, p) # rest" using Cons kp by simp
    show ?thesis using PairToSend assms by (simp add: onPairToSend_hit[OF h])
  qed
next
  case (Elapse d)
  then show ?thesis using assms by (simp add: tick_timers)
qed (use assms in \<open>simp_all add: initSocket_def onDisconnect_def onConfirmFailed_def onConfirm_def
      split: prod.splits\<close>)

lemma timer_stays_run:
  assumes "(r, tm) \<in> set (timers st)" and "clock st + elapsed ws < due tm"
  shows "(r, tm) \<in> set (timers (run_from st ws))"
  using assms
proof (induction ws arbitrary: st)
  case Nil
  then show ?case by (simp add: run_from_def)
next
  case (Cons ev ws)
  have e: "elapsed (ev # ws) = elapsed [ev] + elapsed ws" by (rule elapsed_Cons)
  have a: "(r, tm) \<in> set (timers (handle_event ev st))"
    using Cons.prems e by (intro timer_stays) simp_all
  have b: "clock (handle_event ev st) + elapsed ws < due tm"
    using Cons.prems(2) e by (simp add: handle_event_clock)
  have "run_from st (ev # ws) = run_from (handle_event ev st) ws" by (simp add: run_from_def)
  then show ?case using Cons.IH[OF a b] by simp
qed

text \<open>What a retry meets, for any identity and any state: a peer asks, finds nobody and
  is inserted; less than 1500 ms later it asks again under the same identity and is
  inserted again. The timer of the first insertion is still pending, and once it is due
  the re-inserted entry has been expired: one \<open>pairFailed\<close> to the re-inserted peer and
  no entry left, less than 1500 ms after the re-insertion.\<close>

lemma sender_retry:
  assumes miss0: "obj_delete i (store (toReceive (run evs))) = []"
    and e1: "elapsed ws1 < TIMEOUT"
    and miss2: "obj_delete i (store (toReceive
        (run_from (onPairToSend s i geo fi (run evs)) ws1))) = []"
    and ws2: "undisturbed i (onPairToSend s' i geo' fi'
        (run_from (onPairToSend s i geo fi (run evs)) ws1)) ws2"
    and e2: "TIMEOUT \<le> elapsed ws1 + elapsed ws2"
  shows "(let st2 = run_from (onPairToSend s i geo fi (run evs)) ws1;
              st3 = onPairToSend s' i geo' fi' st2;
              st4 = run_from st3 ws2
          in (ToSend, \<lparr>due = clock (run evs) + TIMEOUT, theID = i, on_expire = pairFailed\<rparr>)
               \<in> set (timers st3) \<and>
             waiting ToSend i st3 = Some (sending_user s' i geo' fi') \<and>
             pairFailed_for i (emitted_since st3 st4) = [Emit (sending_user s' i geo' fi') PairFailed] \<and>
             \<not> obj_in i (store (toSend st4)))"
proof -
  let ?st1 = "onPairToSend s i geo fi (run evs)"
  let ?st2 = "run_from ?st1 ws1"
  let ?st3 = "onPairToSend s' i geo' fi' ?st2"
  let ?D = "clock (run evs) + TIMEOUT"
  let ?tm = "\<lparr>due = ?D, theID = i, on_expire = pairFailed\<rparr>"
  let ?P = "sending_user s' i geo' fi'"
  have c1: "clock ?st1 = clock (run evs)" and t1: "(ToSend, ?tm) \<in> set (timers ?st1)"
    by (simp_all add: onPairToSend_miss[OF miss0])
  have t2: "(ToSend, ?tm) \<in> set (timers ?st2)"
    using t1 e1 c1 by (intro timer_stays_run) simp_all
  have c2: "clock ?st2 = clock (run evs) + elapsed ws1" using c1 by (simp add: run_from_clock)
  have inv2: "server_inv ?st2" by (intro run_from_inv onPairToSend_inv run_inv)
  have ord2: "timers_ordered ?st2" by (intro run_from_ordered onPairToSend_ordered run_ordered)
  have inv3: "server_inv ?st3" using inv2 by (rule onPairToSend_inv)
  have ord3: "timers_ordered ?st3" using ord2 by (rule onPairToSend_ordered)
  have c3: "clock ?st3 = clock ?st2" by (simp add: onPairToSend_miss[OF miss2])
  have t3: "(ToSend, ?tm) \<in> set (timers ?st3)"
    using t2 by (simp add: onPairToSend_miss[OF miss2])
  have w: "waiting ToSend i ?st3 = Some ?P" "waiting ToReceive i ?st3 = None"
    by (simp_all add: onPairToSend_miss[OF miss2] waiting_def pool_def map_of_obj_set)
  have sw: "still_waiting ToSend i ?P ?D ?st3 ?st3"
    unfolding still_waiting_def using w t3 by (simp add: other_def pairFailed_for_simps)
  have el: "?D \<le> clock ?st3 + elapsed ws2" using e2 c3 c2 by simp
  from has_expired_view[OF expires_by_deadline[OF inv3 ord3 sw ws2 el]] t3 w(1)
  show ?thesis by (simp add: Let_def pool_def)
qed

lemma receiver_retry:
  assumes miss0: "obj_delete i (store (toSend (run evs))) = []"
    and e1: "elapsed ws1 < TIMEOUT"
    and miss2: "obj_delete i (store (toSend
        (run_from (onPairToReceive s i geo (run evs)) ws1))) = []"
    and ws2: "undisturbed i (onPairToReceive s' i geo'
        (run_from (onPairToReceive s i geo (run evs)) ws1)) ws2"
    and e2: "TIMEOUT \<le> elapsed ws1 + elapsed ws2"
  shows "(let st2 = run_from (onPairToReceive s i geo (run evs)) ws1;
              st3 = onPairToReceive s' i geo' st2;
              st4 = run_from st3 ws2
          in (ToReceive, \<lparr>due = clock (run evs) + TIMEOUT, theID = i, on_expire = pairFailed\<rparr>)
               \<in> set (timers st3) \<and>
             waiting ToReceive i st3 = Some (receiving_user s' i geo') \<and>
             pairFailed_for i (emitted_since st3 st4) = [Emit (receiving_user s' i geo') PairFailed] \<and>
             \<not> obj_in i (store (toReceive st4)))"
proof -
  let ?st1 = "onPairToReceive s i geo (run evs)"
  let ?st2 = "run_from ?st1 ws1"
  let ?st3 = "onPairToReceive s' i geo' ?st2"
  let ?D = "clock (run evs) + TIMEOUT"
  let ?tm = "\<lparr>due = ?D, theID = i, on_expire = pairFailed\<rparr>"
  let ?P = "receiving_user s' i geo'"
  have c1: "clock ?st1 = clock (run evs)" and t1: "(ToReceive, ?tm) \<in> set (timers ?st1)"
    by (simp_all add: onPairToReceive_miss[OF miss0])
  have t2: "(ToReceive, ?tm) \<in> set (timers ?st2)"
    using t1 e1 c1 by (intro timer_stays_run) simp_all
  have c2: "clock ?st2 = clock (run evs) + elapsed ws1" using c1 by (simp add: run_from_clock)
  have inv2: "server_inv ?st2" by (intro run_from_inv onPairToReceive_inv run_inv)
  have ord2: "timers_ordered ?st2" by (intro run_from_ordered onPairToReceive_ordered run_ordered)
  have inv3: "server_inv ?st3" using inv2 by (rule onPairToReceive_inv)
  have ord3: "timers_ordered ?st3" using ord2 by (rule onPairToReceive_ordered)
  have c3: "clock ?st3 = clock ?st2" by (simp add: onPairToReceive_miss[OF miss2])
  have t3: "(ToReceive, ?tm) \<in> set (timers ?st3)"
    using t2 by (simp add: onPairToReceive_miss[OF miss2])
  have w: "waiting ToReceive i ?st3 = Some ?P" "waiting ToSend i ?st3 = None"
    by (simp_all add: onPairToReceive_miss[OF miss2] waiting_def pool_def map_of_obj_set)
  have sw: "still_waiting ToReceive i ?P ?D ?st3 ?st3"
    unfolding still_waiting_def using w t3 by (simp add: other_def pairFailed_for_simps)
  have el: "?D \<le> clock ?st3 + elapsed ws2" using e2 c3 c2 by simp
  from has_expired_view[OF expires_by_deadline[OF inv3 ord3 sw ws2 el]] t3 w(1)
  show ?thesis by (simp add: Let_def pool_def)
qed

text \<open>Every \<open>pairFailed\<close> for an identity uses up an entry under that identity, and
  only an insertion makes one.\<close>

lemma entries_waiting:
  "entries i st = (if waiting ToSend i st = None then 0 else 1) +
                  (if waiting ToReceive i st = None then 0 else 1)"
  by (simp add: entries_def obj_in_def waiting_def pool_def)

lemma fire_balance:
  assumes wf: "pools_wf st" and cb: "on_expire (snd rt) = pairFailed"
  shows "length (pairFailed_for i (out (fire rt st))) + entries i (fire rt st) =
         length (pairFailed_for i (out st)) + entries i st"
proof (cases "waiting (fst rt) (theID (snd rt)) st")
  case None
  have "\<And>r. waiting r i (fire rt st) = waiting r i st"
    using None by (auto simp add: fire_waiting)
  then show ?thesis using None by (simp add: entries_waiting fire_out[OF cb])
next
  case (Some u)
  have u: "user_id u = theID (snd rt)" using waiting_id[OF wf Some] .
  show ?thesis
  proof (cases "theID (snd rt) = i")
    case True
    then show ?thesis using Some u
      by (cases "fst rt") (auto simp add: entries_waiting fire_out[OF cb] fire_waiting pairFailed_for_simps)
  next
    case False
    then show ?thesis using Some u
      by (simp add: entries_waiting fire_out[OF cb] fire_waiting pairFailed_for_simps)
  qed
qed

lemma fire_all_balance:
  assumes "pools_wf st" and "list_all (\<lambda>rt. on_expire (snd rt) = pairFailed) rts"
  shows "length (pairFailed_for i (out (foldl (\<lambda>s rt. fire rt s) st rts))) +
           entries i (foldl (\<lambda>s rt. fire rt s) st rts) =
         length (pairFailed_for i (out st)) + entries i st"
  using assms
proof (induction rts arbitrary: st)
  case Nil
  then show ?case by simp
next
  case (Cons rt rts)
  have cb: "on_expire (snd rt) = pairFailed"
    and rest: "list_all (\<lambda>rt. on_expire (snd rt) = pairFailed) rts"
    using Cons.prems(2) by simp_all
  show ?case
    using Cons.IH[OF fire_pools_wf[OF Cons.prems(1)] rest] fire_balance[OF Cons.prems(1) cb]
    by simp
qed

lemma tick_balance:
  assumes inv: "server_inv st"
  shows "length (pairFailed_for i (out (tick d st))) + entries i (tick d st) =
         length (pairFailed_for i (out st)) + entries i st"
proof -
  let ?ready = "filter (\<lambda>rt. due (snd rt) \<le> clock st + d) (timers st)"
  let ?st0 = "st\<lparr>timers := filter (\<lambda>rt. \<not> due (snd rt) \<le> clock st + d) (timers st)\<rparr>"
  have wf: "pools_wf ?st0" using inv by (simp add: server_inv_def pools_wf_frame)
  have cb: "list_all (\<lambda>rt. on_expire (snd rt) = pairFailed) ?ready"
    using inv by (simp add: server_inv_def timers_wf_def list_all_iff)
  have e: "entries i (tick d st) = entries i (foldl (\<lambda>s rt. fire rt s) ?st0 ?ready)"
    "entries i ?st0 = entries i st"
    by (simp_all add: entries_waiting tick_view waiting_frame)
  show ?thesis
    using fire_all_balance[OF wf cb, of i] unfolding e tick_view by simp
qed

lemma length_pairFailed_append:
  "pairFailed_for i es = [] \<Longrightarrow>
   length (pairFailed_for i (xs @ es)) = length (pairFailed_for i xs)"
  by (simp add: pairFailed_for_simps)

lemma handle_event_balance:
  assumes inv: "server_inv st"
  shows "length (pairFailed_for i (out (handle_event ev st))) + entries i (handle_event ev st) \<le>
         length (pairFailed_for i (out st)) + entries i st + (if inserts i st ev then 1 else 0)"
proof (cases ev)
  case (Connect s)
  then show ?thesis
    by (simp add: initSocket_def entries_def pairFailed_for_simps)
next
  case (Disconnect j)
  then show ?thesis
    by (simp add: onDisconnect_def entries_def obj_in_def Users_clear_def map_of_obj_delete)
next
  case (PairToReceive s j geo)
  show ?thesis
  proof (cases "obj_delete j (store (toSend st))")
    case Nil
    show ?thesis using PairToReceive Nil
      by (simp add: onPairToReceive_miss[OF Nil] entries_def obj_in_def map_of_obj_set
          map_of_obj_delete)
  next
    case (Cons kp rest)
    obtain k p where kp: "kp = (k, p)" by force
    have h: "obj_delete j (store (toSend st)) = (k, p) # rest" using Cons kp by simp
    show ?thesis using PairToReceive
      by (auto simp add: onPairToReceive_hit[OF h] entries_def obj_in_def
          map_of_obj_delete pairFailed_for_simps paired_add_no_pairFailed)
  qed
next
  case (PairToSend s j geo fi)
  show ?thesis
  proof (cases "obj_delete j (store (toReceive st))")
    case Nil
    show ?thesis using PairToSend Nil
      by (simp add: onPairToSend_miss[OF Nil] entries_def obj_in_def map_of_obj_set
          map_of_obj_delete)
  next
    case (Cons kp rest)
    obtain k p where kp: "kp = (k, p)" by force
    have h: "obj_delete j (store (toReceive st)) = (k, p) # rest" using Cons kp by simp
    show ?thesis using PairToSend
      by (auto simp add: onPairToSend_hit[OF h] entries_def obj_in_def
          map_of_obj_delete pairFailed_for_simps paired_add_no_pairFailed)
  qed
next
  case (ConfirmFailed m)
  obtain es Q where c: "paired_clear m (paired st) = (es, Q)" by force
  have "pairFailed_for i es = []" using paired_clear_no_pairFailed[of i m "paired st"] c by simp
  then show ?thesis using ConfirmFailed c
    by (simp add: onConfirmFailed_def entries_def pairFailed_for_simps)
next
  case (ConfirmPair m p)
  obtain es Q where c: "paired_confirm m p (paired st) = (es, Q)" by force
  have "pairFailed_for i es = []" using paired_confirm_no_pairFailed[of i m p "paired st"] c by simp
  then show ?thesis using ConfirmPair c
    by (simp add: onConfirm_def entries_def pairFailed_for_simps)
next
  case (Elapse d)
  then show ?thesis using tick_balance[OF inv, of i d] by simp
qed

lemma run_from_balance:
  assumes "server_inv st"
  shows "length (pairFailed_for i (out (run_from st evs))) + entries i (run_from st evs) \<le>
         length (pairFailed_for i (out st)) + entries i st + insertions i st evs"
  using assms
proof (induction evs arbitrary: st)
  case Nil
  then show ?case by (simp add: run_from_def)
next
  case (Cons ev evs)
  have r: "run_from st (ev # evs) = run_from (handle_event ev st) evs" by (simp add: run_from_def)
  show ?case
    using Cons.IH[OF handle_event_inv[OF Cons.prems, of ev]]
      handle_event_balance[OF Cons.prems, of i ev]
    unfolding r by (simp split: if_splits)
qed

lemma pairFailed_at_most_insertions:
  "length (pairFailed_for i (out (run evs))) + entries i (run evs) \<le> insertions i Server_init evs"
proof -
  have "length (pairFailed_for i (out Server_init)) + entries i Server_init = 0"
    by (simp add: Server_init_def Users_new_def entries_def obj_in_def pairFailed_for_simps)
  then show ?thesis
    using run_from_balance[OF server_inv_init, of i evs] unfolding run_def by simp
qed


lemma pairFailed_le_insertions:
  "length (pairFailed_for i (out (run evs))) \<le> insertions i Server_init evs"
  using pairFailed_at_most_insertions[of i evs] by simp

text \<open>The emissions only grow, and no identity waits in both pools at once. So from any
  reachable state, as long as an identity is not inserted again, at most one
  \<open>pairFailed\<close> is emitted for it: at most one expiry notification per insertion.\<close>

lemma fire_all_out_grows:
  "\<exists>es. out (foldl (\<lambda>s rt. fire rt s) st rts) = out st @ es"
proof (induction rts arbitrary: st)
  case Nil
  then show ?case by simp
next
  case (Cons rt rts)
  obtain e1 U where u: "Users_expire (snd rt) (pool (fst rt) st) = (e1, U)" by force
  have e1: "out (fire rt st) = out st @ e1"
    using u by (cases "fst rt") (simp_all add: fire_def set_pool_def)
  from Cons.IH[of "fire rt st"] obtain es where
    "out (foldl (\<lambda>s rt. fire rt s) (fire rt st) rts) = out (fire rt st) @ es" by blast
  then show ?case using e1 by simp
qed

lemma handle_event_out_grows: "\<exists>es. out (handle_event ev st) = out st @ es"
proof (cases ev)
  case (PairToReceive s j geo)
  show ?thesis
  proof (cases "obj_delete j (store (toSend st))")
    case Nil
    then show ?thesis using PairToReceive by (simp add: onPairToReceive_miss[OF Nil])
  next
    case (Cons kp rest)
    obtain k p where kp: "kp = (k, p)" by force
    have h: "obj_delete j (store (toSend st)) = (k, p) # rest" using Cons kp by simp
    show ?thesis using PairToReceive by (simp add: onPairToReceive_hit[OF h])
  qed
next
  case (PairToSend s j geo fi)
  show ?thesis
  proof (cases "obj_delete j (store (toReceive st))")
    case Nil
    then show ?thesis using PairToSend by (simp add: onPairToSend_miss[OF Nil])
  next
    case (Cons kp rest)
    obtain k p where kp: "kp = (k, p)" by force
    have h: "obj_delete j (store (toReceive st)) = (k, p) # rest" using Cons kp by simp
    show ?thesis using PairToSend by (simp add: onPairToSend_hit[OF h])
  qed
next
  case (Elapse d)
  then show ?thesis
    using fire_all_out_grows[of
        "st\<lparr>timers := filter (\<lambda>rt. \<not> due (snd rt) \<le> clock st + d) (timers st)\<rparr>"
        "filter (\<lambda>rt. due (snd rt) \<le> clock st + d) (timers st)"]
    by (simp add: tick_view)
qed (simp_all add: initSocket_def onDisconnect_def onConfirmFailed_def onConfirm_def
      split: prod.splits)

lemma run_from_out_grows: "\<exists>es. out (run_from st ws) = out st @ es"
proof (induction ws arbitrary: st)
  case Nil
  then show ?case by (simp add: run_from_def)
next
  case (Cons ev ws)
  have r: "run_from st (ev # ws) = run_from (handle_event ev st) ws" by (simp add: run_from_def)
  obtain e1 where e1: "out (handle_event ev st) = out st @ e1"
    using handle_event_out_grows by blast
  from Cons.IH[of "handle_event ev st"] obtain es where
    "out (run_from (handle_event ev st) ws) = out (handle_event ev st) @ es" by blast
  then show ?case unfolding r using e1 by simp
qed

lemma fire_all_disjoint:
  "pools_disjoint st \<Longrightarrow> pools_disjoint (foldl (\<lambda>s rt. fire rt s) st rts)"
proof (induction rts arbitrary: st)
  case Nil
  then show ?case by simp
next
  case (Cons rt rts)
  have "pools_disjoint (fire rt st)"
    using Cons.prems unfolding pools_disjoint_def by (auto simp add: fire_waiting)
  then show ?case using Cons.IH by simp
qed

lemma handle_event_disjoint:
  assumes "pools_disjoint st"
  shows "pools_disjoint (handle_event ev st)"
proof (cases ev)
  case (Connect s)
  then show ?thesis using assms
    by (simp add: pools_disjoint_def initSocket_def waiting_def pool_def)
next
  case (Disconnect j)
  then show ?thesis using assms
    by (auto simp add: pools_disjoint_def onDisconnect_def waiting_def pool_def Users_clear_def
        map_of_obj_delete)
next
  case (PairToReceive s j geo)
  show ?thesis
  proof (cases "obj_delete j (store (toSend st))")
    case Nil
    then show ?thesis using PairToReceive
      by (simp add: onPairToReceive_miss[OF Nil] pools_disjoint_def waiting_def pool_def)
  next
    case (Cons kp rest)
    obtain k p where kp: "kp = (k, p)" by force
    have h: "obj_delete j (store (toSend st)) = (k, p) # rest" using Cons kp by simp
    show ?thesis using PairToReceive assms
      by (auto simp add: onPairToReceive_hit[OF h] pools_disjoint_def waiting_def pool_def
          map_of_obj_delete)
  qed
next
  case (PairToSend s j geo fi)
  show ?thesis
  proof (cases "obj_delete j (store (toReceive st))")
    case Nil
    then show ?thesis using PairToSend
      by (simp add: onPairToSend_miss[OF Nil] pools_disjoint_def waiting_def pool_def)
  next
    case (Cons kp rest)
    obtain k p where kp: "kp = (k, p)" by force
    have h: "obj_delete j (store (toReceive st)) = (k, p) # rest" using Cons kp by simp
    show ?thesis using PairToSend assms
      by (auto simp add: onPairToSend_hit[OF h] pools_disjoint_def waiting_def pool_def
          map_of_obj_delete)
  qed
next
  case (ConfirmFailed m)
  then show ?thesis using assms
    by (simp add: pools_disjoint_def onConfirmFailed_def waiting_def pool_def split: prod.splits)
next
  case (ConfirmPair m p)
  then show ?thesis using assms
    by (simp add: pools_disjoint_def onConfirm_def waiting_def pool_def split: prod.splits)
next
  case (Elapse d)
  have "pools_disjoint (st\<lparr>timers := filter (\<lambda>rt. \<not> due (snd rt) \<le> clock st + d) (timers st)\<rparr>)"
    using assms by (simp add: pools_disjoint_def waiting_frame)
  then have "pools_disjoint (foldl (\<lambda>s rt. fire rt s)
       (st\<lparr>timers := filter (\<lambda>rt. \<not> due (snd rt) \<le> clock st + d) (timers st)\<rparr>)
       (filter (\<lambda>rt. due (snd rt) \<le> clock st + d) (timers st)))"
    by (rule fire_all_disjoint)
  then show ?thesis using Elapse by (simp add: pools_disjoint_def tick_view)
qed

lemma run_disjoint: "pools_disjoint (run evs)"
proof -
  have "\<And>st. pools_disjoint st \<Longrightarrow> pools_disjoint (foldl (\<lambda>s ev. handle_event ev s) st evs)"
  proof (induction evs)
    case Nil
    then show ?case by simp
  next
    case (Cons ev evs)
    show ?case using Cons.IH[OF handle_event_disjoint[OF Cons.prems, of ev]] by simp
  qed
  moreover have "pools_disjoint Server_init"
    by (simp add: pools_disjoint_def Server_init_def Users_new_def waiting_def pool_def)
  ultimately show ?thesis unfolding run_def run_from_def by blast
qed

lemma one_pairFailed_per_insertion:
  assumes "insertions i (run evs) ws = 0"
  shows "length (pairFailed_for i (emitted_since (run evs) (run_from (run evs) ws))) \<le> 1"
proof -
  obtain es where es: "out (run_from (run evs) ws) = out (run evs) @ es"
    using run_from_out_grows by blast
  have e: "emitted_since (run evs) (run_from (run evs) ws) = es"
    by (simp add: emitted_since_def es)
  have "waiting ToSend i (run evs) = None \<or> waiting ToReceive i (run evs) = None"
    using run_disjoint[of evs] by (simp add: pools_disjoint_def)
  then have "entries i (run evs) \<le> 1"
    by (auto simp add: entries_waiting)
  moreover have "length (pairFailed_for i (out (run evs) @ es)) + entries i (run_from (run evs) ws)
      \<le> length (pairFailed_for i (out (run evs))) + entries i (run evs)"
    using run_from_balance[OF run_inv, of i evs ws] assms es by simp
  ultimately show ?thesis unfolding e by (simp add: pairFailed_for_simps)
qed

lemma retry_early_state:
  "run retry_early =
     \<lparr>socketID = 0,
      toSend = \<lparr>store = [(10, sending_user (sock 10) 10 None a_txt)]\<rparr>,
      toReceive = \<lparr>store = []\<rparr>,
      paired = paired_init,
      timers = [(ToSend, \<lparr>due = 1500, theID = 10, on_expire = pairFailed\<rparr>),
                (ToSend, \<lparr>due = 2500, theID = 10, on_expire = pairFailed\<rparr>)],
      clock = 1000, out = []\<rparr>"
  by (simp add: retry_early_def scenario_retry_def run_def run_from_def Server_init_def
      Users_new_def onPairToSend_miss obj_delete_def tick_def Let_def TIMEOUT_def)

text \<open>
  Claim C2, at a concrete input. Identity 10 asks to send at time 0 and again at time
  1000. \<open>addTillExpire\<close> cancels nothing: after the second request both timers are
  pending, the earlier one due at 1500. Running that earlier timer is not a no-op
  either: the presence check finds the re-inserted entry, so the timer emits
  \<open>pairFailed\<close> to the re-inserted peer and empties the pool, 500 ms after the
  re-insertion and not the 1500 ms for which \<open>addTillExpire\<close> is documented to keep a
  user in the store.
\<close>

theorem earlier_timer_expires_retry:
  "timers (run retry_early) =
     [(ToSend, \<lparr>due = 1500, theID = 10, on_expire = pairFailed\<rparr>),
      (ToSend, \<lparr>due = 2500, theID = 10, on_expire = pairFailed\<rparr>)] \<and>
   clock (run retry_early) = 1000 \<and>
   out (run retry_early) = [] \<and>
   out (fire (ToSend, \<lparr>due = 1500, theID = 10, on_expire = pairFailed\<rparr>) (run retry_early)) =
     [Emit (sending_user (sock 10) 10 None a_txt) PairFailed] \<and>
   store (toSend (fire (ToSend, \<lparr>due = 1500, theID = 10, on_expire = pairFailed\<rparr>)
     (run retry_early))) = [] \<and>
   out (tick 500 (run retry_early)) = [Emit (sending_user (sock 10) 10 None a_txt) PairFailed] \<and>
   store (toSend (tick 500 (run retry_early))) = []"
  by (simp add: retry_early_state fire_def pool_def set_pool_def Users_expire_def obj_in_def
      obj_delete_def pairFailed_def tick_def Let_def)

section \<open>The secondary index of Pairs\<close>

text \<open>One direction of the consistency holds in every reachable registry: an index entry
  names a stored connection of which the identity is a participant.\<close>

lemma peer_id: "user_id (peer n) = n"
  by (simp add: peer_def receiving_user_def)

lemma stale_adds_state:
  "connectionID (Pairs_run stale_adds) = 2"
  "connections (Pairs_run stale_adds) 1 =
     Some \<lparr>sender = peer 10, senderConfirmed = False, receiver = peer 20,
           receiverConfirmed = False, status = ''INIT'', con_id = 1\<rparr>"
  "connections (Pairs_run stale_adds) 2 =
     Some \<lparr>sender = peer 10, senderConfirmed = False, receiver = peer 30,
           receiverConfirmed = False, status = ''INIT'', con_id = 2\<rparr>"
  "indices (Pairs_run stale_adds) 10 = Some 2"
  "indices (Pairs_run stale_adds) 20 = Some 1"
  "indices (Pairs_run stale_adds) 30 = Some 2"
  by (simp_all add: stale_adds_def Pairs_run_def Pairs_add_def nextID_def Pairs_init_def
      peer_id Let_def)

lemma Pairs_add_effect:
  "fst (Pairs_add S R st) = connectionID st + 1 \<and>
   connectionID (snd (Pairs_add S R st)) = connectionID st + 1 \<and>
   connections (snd (Pairs_add S R st)) =
     (connections st)(connectionID st + 1 \<mapsto>
        \<lparr>sender = S, senderConfirmed = False, receiver = R, receiverConfirmed = False,
         status = ''INIT'', con_id = connectionID st + 1\<rparr>) \<and>
   indices (snd (Pairs_add S R st)) =
     ((indices st)(user_id S \<mapsto> connectionID st + 1))(user_id R \<mapsto> connectionID st + 1)"
  by (auto simp add: Pairs_add_def nextID_def Let_def fun_eq_iff)

lemma Pairs_add_sound:
  assumes "index_sound st" and "ids_fresh st"
  shows "index_sound (snd (Pairs_add S R st)) \<and> ids_fresh (snd (Pairs_add S R st))"
proof -
  have f: "connections st (connectionID st + 1) = None"
    using assms(2) unfolding ids_fresh_def by (metis Suc_n_not_le_n Suc_eq_plus1 not_Some_eq)
  show ?thesis
    unfolding index_sound_def ids_fresh_def
  proof (intro conjI allI impI)
    fix u c
    assume h: "indices (snd (Pairs_add S R st)) u = Some c"
    show "\<exists>con. connections (snd (Pairs_add S R st)) c = Some con \<and>
        (u = user_id (sender con) \<or> u = user_id (receiver con))"
    proof (cases "u = user_id S \<or> u = user_id R")
      case True
      then have "c = connectionID st + 1" using h by (auto simp add: Pairs_add_effect split: if_splits)
      then show ?thesis using True by (auto simp add: Pairs_add_effect)
    next
      case False
      then have "indices st u = Some c" using h by (simp add: Pairs_add_effect)
      then obtain con where c: "connections st c = Some con"
        "u = user_id (sender con) \<or> u = user_id (receiver con)"
        using assms(1) unfolding index_sound_def by blast
      then have "c \<noteq> connectionID st + 1" using f by auto
      then show ?thesis using c by (simp add: Pairs_add_effect)
    qed
  next
    fix c con
    assume "connections (snd (Pairs_add S R st)) c = Some con"
    then show "c \<le> connectionID (snd (Pairs_add S R st))"
      using assms(2) unfolding ids_fresh_def
      by (auto simp add: Pairs_add_effect split: if_splits intro: le_SucI)
  qed
qed

lemma Pairs_confirm_sound:
  assumes "index_sound st" and "ids_fresh st"
  shows "index_sound (snd (Pairs_confirm c u st)) \<and> ids_fresh (snd (Pairs_confirm c u st))"
proof (cases "connections st c")
  case None
  then show ?thesis using assms by (simp add: Pairs_confirm_def)
next
  case (Some con)
  define con' where "con' = (if user_id (sender con) = u
       then con\<lparr>senderConfirmed := True\<rparr> else con\<lparr>receiverConfirmed := True\<rparr>)"
  have p: "sender con' = sender con" "receiver con' = receiver con" by (simp_all add: con'_def)
  have st': "snd (Pairs_confirm c u st) = st\<lparr>connections := (connections st)(c \<mapsto> con')\<rparr>"
    using Some by (simp add: Pairs_confirm_def Let_def con'_def)
  show ?thesis
    unfolding st' index_sound_def ids_fresh_def
  proof (intro conjI allI impI)
    fix v k
    assume "indices (st\<lparr>connections := (connections st)(c \<mapsto> con')\<rparr>) v = Some k"
    then have "indices st v = Some k" by simp
    then obtain x where x: "connections st k = Some x"
        "v = user_id (sender x) \<or> v = user_id (receiver x)"
      using assms(1) unfolding index_sound_def by blast
    show "\<exists>y. connections (st\<lparr>connections := (connections st)(c \<mapsto> con')\<rparr>) k = Some y \<and>
        (v = user_id (sender y) \<or> v = user_id (receiver y))"
    proof (cases "k = c")
      case True
      then have "x = con" using x Some by simp
      then show ?thesis using True x p by simp
    next
      case False
      then show ?thesis using x by simp
    qed
  next
    fix k y
    assume "connections (st\<lparr>connections := (connections st)(c \<mapsto> con')\<rparr>) k = Some y"
    then show "k \<le> connectionID (st\<lparr>connections := (connections st)(c \<mapsto> con')\<rparr>)"
      using assms(2) Some unfolding ids_fresh_def by (auto split: if_splits)
  qed
qed

lemma Pairs_clear_sound:
  assumes "index_sound st" and "ids_fresh st"
    and "Pairs_clear c f cb st = Inr (called, st')"
  shows "index_sound st' \<and> ids_fresh st'"
proof (cases "connections st c")
  case None
  then show ?thesis using assms by (simp add: Pairs_clear_def)
next
  case (Some con)
  then have st': "st' = st\<lparr>connections := (connections st)(c := None),
        indices := ((indices st)(user_id (sender con) := None))(user_id (receiver con) := None)\<rparr>"
    using assms(3) by (auto simp add: Pairs_clear_def split: if_splits option.splits sum.splits)
  show ?thesis
    unfolding st' index_sound_def ids_fresh_def
  proof (intro conjI allI impI)
    fix u k
    assume "indices (st\<lparr>connections := (connections st)(c := None),
        indices := ((indices st)(user_id (sender con) := None))(user_id (receiver con) := None)\<rparr>) u = Some k"
    then have u: "u \<noteq> user_id (sender con)" "u \<noteq> user_id (receiver con)" "indices st u = Some k"
      by (auto split: if_splits)
    then obtain con' where c': "connections st k = Some con'"
        "u = user_id (sender con') \<or> u = user_id (receiver con')"
      using assms(1) unfolding index_sound_def by blast
    have "k \<noteq> c" using c' u Some by auto
    then show "\<exists>con'. connections (st\<lparr>connections := (connections st)(c := None),
        indices := ((indices st)(user_id (sender con) := None))(user_id (receiver con) := None)\<rparr>) k = Some con' \<and>
        (u = user_id (sender con') \<or> u = user_id (receiver con'))"
      using c' by simp
  next
    fix k con'
    assume "connections (st\<lparr>connections := (connections st)(c := None),
        indices := ((indices st)(user_id (sender con) := None))(user_id (receiver con) := None)\<rparr>) k = Some con'"
    then show "k \<le> connectionID (st\<lparr>connections := (connections st)(c := None),
        indices := ((indices st)(user_id (sender con) := None))(user_id (receiver con) := None)\<rparr>)"
      using assms(2) unfolding ids_fresh_def by (auto split: if_splits)
  qed
qed

lemma Pairs_exec_sound:
  assumes "index_sound st \<and> ids_fresh st"
  shows "index_sound (Pairs_exec op st) \<and> ids_fresh (Pairs_exec op st)"
proof (cases op)
  case (Add S R)
  then show ?thesis using assms Pairs_add_sound by simp
next
  case (Confirm c u)
  then show ?thesis using assms Pairs_confirm_sound by simp
next
  case (Clear c f cb)
  show ?thesis
  proof (cases "Pairs_clear c f cb st")
    case (Inl e)
    then show ?thesis using assms Clear by simp
  next
    case (Inr r)
    obtain called st' where r: "r = (called, st')" by force
    show ?thesis using Pairs_clear_sound[of st c f cb called st'] assms Clear Inr r by simp
  qed
qed

lemma index_sound_reachable: "index_sound (Pairs_run ops)"
proof -
  have "\<And>st. index_sound st \<and> ids_fresh st \<Longrightarrow>
      index_sound (foldl (\<lambda>st op. Pairs_exec op st) st ops) \<and>
      ids_fresh (foldl (\<lambda>st op. Pairs_exec op st) st ops)"
  proof (induction ops)
    case Nil
    then show ?case by simp
  next
    case (Cons op ops)
    show ?case using Cons.IH[OF Pairs_exec_sound[OF Cons.prems]] by simp
  qed
  moreover have "index_sound Pairs_init \<and> ids_fresh Pairs_init"
    by (simp add: index_sound_def ids_fresh_def Pairs_init_def)
  ultimately show ?thesis unfolding Pairs_run_def by blast
qed

text \<open>
  Claim C1, at a concrete input. \<open>Pairs.add\<close> deletes only the index entries of the two
  participants; a connection that one of them is already in stays in \<open>_connections\<close>.
  After pairing peer 10 with peer 20 and then with peer 30, connection 1 is still stored
  while its sender's id 10 is indexed to connection 2: the index does not cover the
  primary store.
\<close>

theorem stale_connection_breaks_index:
  "connections (Pairs_run stale_adds) 1 =
     Some \<lparr>sender = peer 10, senderConfirmed = False, receiver = peer 20,
           receiverConfirmed = False, status = ''INIT'', con_id = 1\<rparr> \<and>
   indices (Pairs_run stale_adds) 10 = Some 2 \<and>
   \<not> index_consistent (Pairs_run stale_adds)"
proof -
  have "\<not> index_covers (Pairs_run stale_adds)"
  proof
    assume "index_covers (Pairs_run stale_adds)"
    then have "indices (Pairs_run stale_adds) (user_id (sender
        \<lparr>sender = peer 10, senderConfirmed = False, receiver = peer 20,
           receiverConfirmed = False, status = ''INIT'', con_id = 1\<rparr>)) = Some 1"
      unfolding index_covers_def using stale_adds_state(2) by blast
    then show False by (simp add: peer_id stale_adds_state)
  qed
  then show ?thesis using stale_adds_state by (simp add: index_consistent_def)
qed

text \<open>
  Claim C4, at the same input. After the second \<open>Pairs.add\<close> both connections are
  stored, each with peer 10 as its sender: the earlier connection has not been cleared.
  The handlers' \<open>paired.add\<close> does clear it: after the same two calls the id 20 of the
  earlier partner no longer resolves to a connection.
\<close>

theorem add_keeps_earlier_connection:
  "Pairs_get 1 (Pairs_run stale_adds) =
     Some \<lparr>sender = peer 10, senderConfirmed = False, receiver = peer 20,
           receiverConfirmed = False, status = ''INIT'', con_id = 1\<rparr> \<and>
   Pairs_get 2 (Pairs_run stale_adds) =
     Some \<lparr>sender = peer 10, senderConfirmed = False, receiver = peer 30,
           receiverConfirmed = False, status = ''INIT'', con_id = 2\<rparr> \<and>
   con_at (snd (paired_add (peer 10) (peer 30) (snd (paired_add (peer 10) (peer 20) paired_init)))) 20
     = None"
  using stale_adds_state
  by (simp add: Pairs_get_def paired_add_def paired_clear_def con_at_def
      paired_init_def peer_id Let_def)

end
